theory Spec2Isabelle
  imports Main "HOL-Library.Word" "HOL-Library.Char_ord" "HOL-Library.List_Lexorder"
    "HOL-Library.Product_Lexorder" "HOL-Library.Multiset"
begin

section \<open>Data model of the replication planner\<close>

text \<open>
  The planner (package \<open>logic\<close>) works on version lists that hold pointers to
  \<open>pdu.FilesystemVersion\<close> values.  A non-nil pointer is modelled as the pair of its
  address and the value it points to, a nil-able pointer as an \<open>option\<close> of that.  The
  address matters in one place only: \<open>doPlanning\<close> compares two version pointers with
  \<open>==\<close>.
\<close>

datatype VersionType = Snapshot | Bookmark

record FilesystemVersion =
  Type :: VersionType
  Name :: string
  Guid :: "64 word"
  CreateTXG :: "64 word"
  Creation :: string

type_synonym version_ptr = "nat \<times> FilesystemVersion"

definition is_snapshot :: "version_ptr \<Rightarrow> bool" where
  "is_snapshot v = (Type (snd v) = Snapshot)"

text \<open>
  \<open>GetGuid\<close> is the accessor of package \<open>pdu\<close>; \<open>TargetEquals\<close> calls it on the
  from-version of a full send, which is nil, so it is the nil-safe getter that yields the
  zero value for a nil receiver.
\<close>

definition GetGuid :: "version_ptr option \<Rightarrow> 64 word" where
  "GetGuid v = (case v of None \<Rightarrow> 0 | Some p \<Rightarrow> Guid (snd p))"

text \<open>Pointer comparison \<open>a == b\<close> of two nil-able version pointers.\<close>

definition ptr_eq :: "version_ptr option \<Rightarrow> version_ptr option \<Rightarrow> bool" where
  "ptr_eq a b = (map_option fst a = map_option fst b)"

text \<open>
  Errors are values.  The conflict types of package \<open>diff\<close> are the first three
  constructors; \<open>Error\<close> is an \<open>errors.New\<close> with its message; \<open>Wrapped\<close> is a
  \<open>fmt.Errorf\<close> with \<open>%w\<close>; \<open>PathError\<close> is an \<open>os.PathError\<close> with its fields
  Op, Path and Err, and \<open>E2BIG\<close> the errno \<open>syscall.E2BIG\<close>; the remaining ones are the
  other errors the modelled code builds or inspects.
\<close>

datatype error =
    ConflictMostRecentSnapshotAlreadyPresent
  | ConflictNoCommonAncestor (SortedSenderVersions: "version_ptr list")
      (SortedReceiverVersions: "version_ptr list")
  | ConflictDiverged version_ptr "version_ptr list" "version_ptr list"
  | Error string
  | Wrapped string error
  | ResumeToGuidNotFound "64 word" string
  | PathError string string error
  | E2BIG
  | DestroySnapshotsError (Undestroyable: "string list")

text \<open>
  \<open>errors.As\<close> and \<open>errors.Is\<close> look at an error and then, as long as there is one,
  at the error it unwraps to: the wrapped error of a \<open>%w\<close>, the Err of a path error.
  \<open>errors.As\<close> stops at the first error of the wanted type.
\<close>

fun As_ConflictMostRecentSnapshotAlreadyPresent :: "error \<Rightarrow> bool" where
  "As_ConflictMostRecentSnapshotAlreadyPresent ConflictMostRecentSnapshotAlreadyPresent = True"
| "As_ConflictMostRecentSnapshotAlreadyPresent (Wrapped m e) =
    As_ConflictMostRecentSnapshotAlreadyPresent e"
| "As_ConflictMostRecentSnapshotAlreadyPresent (PathError op p e) =
    As_ConflictMostRecentSnapshotAlreadyPresent e"
| "As_ConflictMostRecentSnapshotAlreadyPresent e = False"

fun As_ConflictNoCommonAncestor ::
  "error \<Rightarrow> (version_ptr list \<times> version_ptr list) option" where
  "As_ConflictNoCommonAncestor (ConflictNoCommonAncestor ssv srv) = Some (ssv, srv)"
| "As_ConflictNoCommonAncestor (Wrapped m e) = As_ConflictNoCommonAncestor e"
| "As_ConflictNoCommonAncestor (PathError op p e) = As_ConflictNoCommonAncestor e"
| "As_ConflictNoCommonAncestor e = None"

text \<open>The Err of the first path error of the chain.\<close>

fun As_PathError :: "error \<Rightarrow> error option" where
  "As_PathError (PathError op p e) = Some e"
| "As_PathError (Wrapped m e) = As_PathError e"
| "As_PathError e = None"

fun Is_E2BIG :: "error \<Rightarrow> bool" where
  "Is_E2BIG E2BIG = True"
| "Is_E2BIG (Wrapped m e) = Is_E2BIG e"
| "Is_E2BIG (PathError op p e) = Is_E2BIG e"
| "Is_E2BIG e = False"

fun As_DestroySnapshotsError :: "error \<Rightarrow> string list option" where
  "As_DestroySnapshotsError (DestroySnapshotsError undestroyable) = Some undestroyable"
| "As_DestroySnapshotsError (Wrapped m e) = As_DestroySnapshotsError e"
| "As_DestroySnapshotsError (PathError op p e) = As_DestroySnapshotsError e"
| "As_DestroySnapshotsError e = None"

text \<open>A Go call either panics or returns.\<close>

datatype 'a go = Panic string | Return 'a

datatype InitialReplicationAutoResolution =
    InitialReplicationAutoResolutionMostRecent
  | InitialReplicationAutoResolutionAll
  | InitialReplicationAutoResolutionFail
  | InitialReplicationAutoResolutionOther nat

record ConflictResolution =
  InitialReplication :: InitialReplicationAutoResolution

section \<open>The conflict auto-resolver\<close>

text \<open>
  The backwards loop of the \<open>MostRecent\<close> case: the snapshot with the largest index, nil
  when the list holds no snapshot.
\<close>

definition mostRecentSnap :: "version_ptr list \<Rightarrow> version_ptr option" where
  "mostRecentSnap vs = find is_snapshot (rev vs)"

text \<open>
  \<open>tryAutoresolveConflict\<close> returns the pair (path, reason); a nil slice is the empty
  list, a nil error is \<open>None\<close>.
\<close>

definition tryAutoresolveConflict ::
  "error \<Rightarrow> ConflictResolution \<Rightarrow> (version_ptr option list \<times> error option) go" where
  "tryAutoresolveConflict conflict policy =
    (if As_ConflictMostRecentSnapshotAlreadyPresent conflict then Return ([], None)
     else
       case As_ConflictNoCommonAncestor conflict of
         Some (ssv, srv) \<Rightarrow>
           if length srv = 0 then
             if length ssv = 0 then
               Return ([], Some (Error ''no snapshots available on sender side''))
             else
               (case InitialReplication policy of
                  InitialReplicationAutoResolutionMostRecent \<Rightarrow>
                    Return ([None, mostRecentSnap ssv], None)
                | InitialReplicationAutoResolutionAll \<Rightarrow>
                    Return (None # map Some (filter is_snapshot ssv), None)
                | InitialReplicationAutoResolutionFail \<Rightarrow>
                    Return ([], Some (Error
                      ''automatic conflict resolution for initial replication is disabled in config''))
                | InitialReplicationAutoResolutionOther n \<Rightarrow> Panic ''unimplemented'')
           else Return ([], Some conflict)
       | None \<Rightarrow> Return ([], Some conflict))"

section \<open>Filesystems and steps\<close>

text \<open>
  \<open>pdu.Filesystem\<close> is what an endpoint lists for one path; \<open>ReplicationConfig\<close> is
  a pointer that the planner only copies into requests, kept as its address.
\<close>

record pdu_Filesystem =
  pdu_Path :: string
  IsPlaceholder :: bool
  ResumeToken :: string

record PlannerPolicy =
  ConflictResolution :: ConflictResolution
  ReplicationConfig :: nat
  SizeEstimationConcurrency :: int

text \<open>
  The \<open>Filesystem\<close> struct.  Its \<open>sender\<close> and \<open>receiver\<close> fields are the endpoints,
  which the functions below take as their environment; \<open>promBytesReplicated\<close> is
  whether the Prometheus counter is non-nil.
\<close>

record Filesystem =
  policy :: PlannerPolicy
  Path :: string
  receiverFS :: "pdu_Filesystem option"
  senderFS :: pdu_Filesystem
  promBytesReplicated :: bool

text \<open>
  The \<open>Step\<close> struct: \<open>from_version\<close> and \<open>to_version\<close> are its fields \<open>from\<close> and
  \<open>to\<close>; \<open>byteCounter\<close> is nil until \<open>sendRecv\<close> installs the counter, and then holds
  the counter's current count.
\<close>

record Step =
  parent :: Filesystem
  from_version :: "version_ptr option"
  to_version :: "version_ptr option"
  resumeToken :: string
  expectedSize :: "64 word"
  byteCounter :: "64 word option"

text \<open>
  The driver hands \<open>EqualToPreviousAttempt\<close> and \<open>TargetEquals\<close> interface values;
  the type assertions succeed on this package's own types only.
\<close>

datatype driver_FS = LogicFilesystem Filesystem | ForeignFS
datatype driver_Step = LogicStep Step | ForeignStep

definition EqualToPreviousAttempt :: "Filesystem \<Rightarrow> driver_FS \<Rightarrow> bool" where
  "EqualToPreviousAttempt f other =
    (case other of ForeignFS \<Rightarrow> False | LogicFilesystem g \<Rightarrow> Path f = Path g)"

definition TargetEquals :: "Step \<Rightarrow> driver_Step \<Rightarrow> bool go" where
  "TargetEquals s other =
    (case other of
       ForeignStep \<Rightarrow> Return False
     | LogicStep t \<Rightarrow>
         if \<not> EqualToPreviousAttempt (parent s) (LogicFilesystem (parent t)) then
           Panic ''Step interface promise broken: parent filesystems must be same''
         else Return (GetGuid (from_version s) = GetGuid (from_version t)
                \<and> GetGuid (to_version s) = GetGuid (to_version t)))"



section \<open>Planning one filesystem\<close>

text \<open>The decoded resume token (\<open>zfs.ResumeToken\<close>), with the fields the planner reads.\<close>

record zfs_ResumeToken =
  HasFromGUID :: bool
  HasToGUID :: bool
  FromGUID :: "64 word"
  ToGUID :: "64 word"
  ToName :: string

record SendReq =
  sr_Filesystem :: string
  sr_From :: "version_ptr option"
  sr_To :: "version_ptr option"
  sr_ResumeToken :: string
  sr_ReplicationConfig :: nat

record SendDryReq =
  Items :: "SendReq list"
  Concurrency :: int

text \<open>
  What \<open>doPlanning\<close> calls on the endpoints and in other packages: the two
  endpoints' \<open>ListFilesystemVersions\<close> (by the request's filesystem), the sender's
  \<open>SendDry\<close> (the expected sizes of the response's items), \<open>zfs.ParseResumeToken\<close>, and
  \<open>SortVersionListByCreateTXGThenBookmarkLTSnapshot\<close> and \<open>IncrementalPath\<close> of
  package \<open>diff\<close>.  They are parameters of the model.
\<close>

record planner_env =
  senderListFilesystemVersions :: "string \<Rightarrow> error + version_ptr list"
  receiverListFilesystemVersions :: "string \<Rightarrow> error + version_ptr list"
  SendDry :: "SendDryReq \<Rightarrow> error + 64 word list"
  ParseResumeToken :: "string \<Rightarrow> error + zfs_ResumeToken"
  SortVersionListByCreateTXGThenBookmarkLTSnapshot :: "version_ptr list \<Rightarrow> version_ptr list"
  IncrementalPath ::
    "version_ptr list \<Rightarrow> version_ptr list \<Rightarrow> version_ptr option list \<times> error option"

definition needReceiverVersions :: "Filesystem \<Rightarrow> bool" where
  "needReceiverVersions fs =
    (case receiverFS fs of None \<Rightarrow> False | Some r \<Rightarrow> \<not> IsPlaceholder r)"

text \<open>
  \<open>listBothVersions\<close> runs the two calls in an error group.  The model runs the sender's
  call first; when both fail the code returns whichever error came first, the model the
  sender's.  The receiver's versions are the empty list when the call is skipped.
\<close>

definition listBothVersions ::
  "planner_env \<Rightarrow> Filesystem \<Rightarrow> error + (version_ptr list \<times> version_ptr list)" where
  "listBothVersions env fs =
    (case senderListFilesystemVersions env (Path fs) of
       Inl err \<Rightarrow> Inl (Wrapped ''sender'' err)
     | Inr svs \<Rightarrow>
         if needReceiverVersions fs then
           (case receiverListFilesystemVersions env (Path fs) of
              Inl err \<Rightarrow> Inl (Wrapped ''receiver'' err)
            | Inr rvs \<Rightarrow> Inr (svs, rvs))
         else Inr (svs, []))"

definition mkStep ::
  "Filesystem \<Rightarrow> version_ptr option \<Rightarrow> version_ptr option \<Rightarrow> string \<Rightarrow> Step" where
  "mkStep fs f t tok =
    \<lparr>parent = fs, from_version = f, to_version = t, resumeToken = tok,
     expectedSize = 0, byteCounter = None\<rparr>"

text \<open>
  The loop over the sorted sender versions in the resume branch, at index \<open>idx\<close>, with
  the variables \<open>fromVersion\<close>, \<open>toVersion\<close> and \<open>toVersionIdx\<close> as accumulator.
\<close>

fun resumeScan ::
  "zfs_ResumeToken \<Rightarrow> nat \<Rightarrow> version_ptr list \<Rightarrow>
   version_ptr option \<times> version_ptr option \<times> nat \<Rightarrow>
   version_ptr option \<times> version_ptr option \<times> nat" where
  "resumeScan tok idx [] acc = acc"
| "resumeScan tok idx (sfsv # rest) (fromVersion, toVersion, toVersionIdx) =
    resumeScan tok (Suc idx) rest
      (if HasFromGUID tok \<and> Guid (snd sfsv) = FromGUID tok then
         (case fromVersion of
            None \<Rightarrow> Some sfsv
          | Some f \<Rightarrow> if Type (snd f) = Snapshot then fromVersion else Some sfsv)
       else fromVersion,
       if HasToGUID tok \<and> Guid (snd sfsv) = ToGUID tok \<and> Type (snd sfsv) = Snapshot
       then Some sfsv else toVersion,
       if HasToGUID tok \<and> Guid (snd sfsv) = ToGUID tok \<and> Type (snd sfsv) = Snapshot
       then idx else toVersionIdx)"

definition resumeSteps ::
  "planner_env \<Rightarrow> Filesystem \<Rightarrow> bool \<Rightarrow> zfs_ResumeToken \<Rightarrow> string \<Rightarrow>
   version_ptr list \<Rightarrow> error + Step list" where
  "resumeSteps env fs oneStep tok resumeTokenRaw sfsvs0 =
    (let sfsvs = SortVersionListByCreateTXGThenBookmarkLTSnapshot env sfsvs0 in
     case resumeScan tok 0 sfsvs (None, None, 0) of
       (fromVersion, toVersion, toVersionIdx) \<Rightarrow>
         if toVersion = None then Inl (ResumeToGuidNotFound (ToGUID tok) (ToName tok))
         else if ptr_eq fromVersion toVersion then
           Inl (Error ''resume token `fromguid` and `toguid` match same version on sener'')
         else
           let resumeStep = mkStep fs fromVersion toVersion resumeTokenRaw;
               remainingSFSVs = filter is_snapshot (drop toVersionIdx sfsvs)
           in if oneStep \<and> length remainingSFSVs > 1 then
                Inr [resumeStep,
                     mkStep fs (Some (remainingSFSVs ! 0))
                       (Some (remainingSFSVs ! (length remainingSFSVs - 1))) '''']
              else
                Inr (resumeStep #
                     map (\<lambda>i. mkStep fs (Some (remainingSFSVs ! i))
                                (Some (remainingSFSVs ! (i + 1))) '''')
                       [0..<length remainingSFSVs - 1]))"

text \<open>
  The loop over the path in the other branch.  Iteration \<open>i\<close> sees \<open>path[i]\<close> and
  \<open>path[i+1]\<close>, the first two elements of the remaining suffix, whose last element is
  \<open>path[lastIdx]\<close>.
\<close>

fun pathLoop :: "Filesystem \<Rightarrow> bool \<Rightarrow> version_ptr option list \<Rightarrow> Step list" where
  "pathLoop fs oneStep (a # b # rest) =
    (if (case a of None \<Rightarrow> False | Some f \<Rightarrow> oneStep \<and> Type (snd f) = Snapshot)
     then [mkStep fs a (last (b # rest)) '''']
     else mkStep fs a b '''' # pathLoop fs oneStep (b # rest))"
| "pathLoop fs oneStep path = []"

text \<open>
  The path of the other branch: what \<open>IncrementalPath\<close> returns, passed through
  \<open>tryAutoresolveConflict\<close> when it is a conflict.
\<close>

definition resolvedPath ::
  "planner_env \<Rightarrow> Filesystem \<Rightarrow> version_ptr list \<Rightarrow> version_ptr list \<Rightarrow>
   (version_ptr option list \<times> error option) go" where
  "resolvedPath env fs rfsvs sfsvs =
    (case IncrementalPath env rfsvs sfsvs of
       (path0, conflict0) \<Rightarrow>
         (case conflict0 of
            None \<Rightarrow> Return (path0, None)
          | Some c \<Rightarrow> tryAutoresolveConflict c (ConflictResolution (policy fs))))"

definition pathPlanning ::
  "planner_env \<Rightarrow> Filesystem \<Rightarrow> bool \<Rightarrow> version_ptr list \<Rightarrow> version_ptr list \<Rightarrow>
   (error + Step list) go" where
  "pathPlanning env fs oneStep rfsvs sfsvs =
    (case resolvedPath env fs rfsvs sfsvs of
       Panic m \<Rightarrow> Panic m
     | Return (path, conflict) \<Rightarrow>
         (case conflict of
            Some c \<Rightarrow> Return (Inl c)
          | None \<Rightarrow>
              if length path = 0 then Return (Inr [])
              else if length path = 1 then
                Panic ''len(path) must be two for incremental repl, and initial repl must start with nil''
              else Return (Inr (pathLoop fs oneStep path))))"

definition buildSendRequest :: "Step \<Rightarrow> SendReq" where
  "buildSendRequest s =
    \<lparr>sr_Filesystem = Path (parent s), sr_From = from_version s, sr_To = to_version s,
     sr_ResumeToken = resumeToken s,
     sr_ReplicationConfig = ReplicationConfig (policy (parent s))\<rparr>"

text \<open>
  The loop \<open>for i := range resp.Items\<close> of \<open>updateSizeEstimates\<close>; an item beyond the
  last step is an index out of range.
\<close>

fun setExpectedSizes :: "Step list \<Rightarrow> 64 word list \<Rightarrow> Step list go" where
  "setExpectedSizes steps [] = Return steps"
| "setExpectedSizes [] (x # xs) = Panic ''index out of range''"
| "setExpectedSizes (s # steps) (x # xs) =
    (case setExpectedSizes steps xs of
       Panic m \<Rightarrow> Panic m
     | Return steps' \<Rightarrow> Return (s\<lparr>expectedSize := x\<rparr> # steps'))"

definition updateSizeEstimates ::
  "planner_env \<Rightarrow> Filesystem \<Rightarrow> Step list \<Rightarrow> (Step list \<times> error option) go" where
  "updateSizeEstimates env fs steps =
    (case SendDry env \<lparr>Items = map buildSendRequest steps,
                       Concurrency = SizeEstimationConcurrency (policy fs)\<rparr> of
       Inl err \<Rightarrow> Return (steps, Some err)
     | Inr items \<Rightarrow>
         (case setExpectedSizes steps items of
            Panic m \<Rightarrow> Panic m
          | Return steps' \<Rightarrow> Return (steps', None)))"

text \<open>
  The resume token of the receiver's filesystem, decoded: the variables \<open>resumeToken\<close>
  (nil when there is none, \<open>resumeToken'\<close> below) and \<open>resumeTokenRaw\<close>.
\<close>

definition decodeResumeToken ::
  "planner_env \<Rightarrow> Filesystem \<Rightarrow> error + (zfs_ResumeToken option \<times> string)" where
  "decodeResumeToken env fs =
    (case receiverFS fs of
       None \<Rightarrow> Inr (None, '''')
     | Some r \<Rightarrow>
         if ResumeToken r \<noteq> '''' then
           (case ParseResumeToken env (ResumeToken r) of
              Inl err \<Rightarrow> Inl err
            | Inr tok \<Rightarrow> Inr (Some tok, ResumeToken r))
         else Inr (None, ''''))"

text \<open>
  \<open>Filesystem.doPlanning\<close> returns the steps or an error, or panics.  A failed size
  estimate is logged only.
\<close>

definition doPlanning :: "planner_env \<Rightarrow> Filesystem \<Rightarrow> bool \<Rightarrow> (error + Step list) go" where
  "doPlanning env fs oneStep =
    (if IsPlaceholder (senderFS fs) then
       (case receiverFS fs of
          None \<Rightarrow> Return (Inr [])
        | Some r \<Rightarrow>
            if \<not> IsPlaceholder r then
              Return (Inl (Error
                ''sender filesystem is placeholder, but receiver filesystem is not''))
            else Return (Inr []))
     else
       case listBothVersions env fs of
         Inl err \<Rightarrow> Return (Inl err)
       | Inr (sfsvs, rvs) \<Rightarrow>
           if length sfsvs < 1 then Return (Inl (Error ''sender does not have any versions''))
           else
             let rfsvs = (if needReceiverVersions fs then rvs else []) in
             case decodeResumeToken env fs of
               Inl err \<Rightarrow> Return (Inl err)
             | Inr (resumeToken', resumeTokenRaw) \<Rightarrow>
                 (case (case resumeToken' of
                          Some tok \<Rightarrow>
                            Return (resumeSteps env fs oneStep tok resumeTokenRaw sfsvs)
                        | None \<Rightarrow> pathPlanning env fs oneStep rfsvs sfsvs) of
                    Panic m \<Rightarrow> Panic m
                  | Return (Inl err) \<Rightarrow> Return (Inl err)
                  | Return (Inr steps) \<Rightarrow>
                      if length steps = 0 then Return (Inr steps)
                      else
                        (case updateSizeEstimates env fs steps of
                           Panic m \<Rightarrow> Panic m
                         | Return (steps', err) \<Rightarrow> Return (Inr steps'))))"

section \<open>Executing one step\<close>

record SendRes =
  UsedResumeToken :: bool
  ExpectedSize :: "64 word"

record ReceiveReq =
  rr_Filesystem :: string
  rr_To :: "version_ptr option"
  ClearResumeToken :: bool
  rr_ReplicationConfig :: nat

text \<open>
  The endpoints as a step sees them.  \<open>Send\<close> returns the triple (result, stream,
  error), each of which may be nil; a stream is known by its handle.  \<open>Receive\<close> reads
  the byte-counting stream and returns the number of bytes it read and its error.
\<close>

type_synonym stream = nat

record step_env =
  Send :: "SendReq \<Rightarrow> SendRes option \<times> stream option \<times> error option"
  Receive :: "ReceiveReq \<Rightarrow> stream \<Rightarrow> 64 word \<times> error option"
  SendCompleted :: "SendReq \<Rightarrow> error option"

text \<open>What a step does to the outside, in the order it does it.\<close>

datatype call =
    CallSend SendReq
  | CallReceive ReceiveReq stream
  | CallPromAdd "64 word"
  | CallBodyClose stream
  | CallSendCompleted SendReq

text \<open>
  \<open>sendRecv\<close> returns its error, the step with the byte counter installed, and the
  calls made.  The two deferred functions run last, in reverse order of their \<open>defer\<close>.
\<close>

definition sendRecv :: "step_env \<Rightarrow> Step \<Rightarrow> SendReq \<Rightarrow> error option \<times> Step \<times> call list" where
  "sendRecv env s sr =
    (case Send env sr of
       (sres, stream, err) \<Rightarrow>
         (case err of
            Some e \<Rightarrow> (Some e, s, [CallSend sr])
          | None \<Rightarrow>
              (case sres of
                 None \<Rightarrow>
                   (Some (Error ''send request returned nil send result''), s, [CallSend sr])
               | Some res \<Rightarrow>
                   (case stream of
                      None \<Rightarrow>
                        (Some (Error
                           ''send request did not return a stream, broken endpoint implementation''),
                         s, [CallSend sr])
                    | Some strm \<Rightarrow>
                        let rr = \<lparr>rr_Filesystem = Path (parent s), rr_To = sr_To sr,
                                  ClearResumeToken = (\<not> UsedResumeToken res),
                                  rr_ReplicationConfig = ReplicationConfig (policy (parent s))\<rparr>
                        in case Receive env rr strm of
                             (n, rerr) \<Rightarrow>
                               (rerr, s\<lparr>byteCounter := Some n\<rparr>,
                                [CallSend sr, CallReceive rr strm]
                                @ (if promBytesReplicated (parent s) then [CallPromAdd n] else [])
                                @ [CallBodyClose strm])))))"

definition doReplication :: "step_env \<Rightarrow> Step \<Rightarrow> error option \<times> Step \<times> call list" where
  "doReplication env s =
    (let sr = buildSendRequest s in
     case sendRecv env s sr of
       (err, s', cs) \<Rightarrow>
         (case err of
            Some e \<Rightarrow> (Some e, s', cs)
          | None \<Rightarrow> (SendCompleted env sr, s', cs @ [CallSendCompleted sr])))"

section \<open>Batched destruction of snapshots\<close>

text \<open>
  A \<open>DestroySnapOp\<close> holds the address of the error variable it reports to.  The state
  is the contents of those variables and the arguments of the \<open>Destroy\<close> calls made so
  far, oldest first.  A destroyer may answer a call by all earlier ones.
\<close>

record DestroySnapOp =
  op_Filesystem :: string
  op_Name :: string
  ErrOut :: nat

record destroy_state =
  errs :: "nat \<Rightarrow> error option"
  calls :: "string list list"

type_synonym destroyer = "string list list \<Rightarrow> string list \<Rightarrow> error option"

definition Destroy :: "destroyer \<Rightarrow> string list \<Rightarrow> destroy_state \<Rightarrow> error option \<times> destroy_state" where
  "Destroy d args st = (d (calls st) args, st\<lparr>calls := calls st @ [args]\<rparr>)"

definition setErrOut :: "DestroySnapOp \<Rightarrow> error option \<Rightarrow> destroy_state \<Rightarrow> destroy_state" where
  "setErrOut r err st = st\<lparr>errs := (errs st)(ErrOut r := err)\<rparr>"

fun setDestroySnapOpErr :: "DestroySnapOp list \<Rightarrow> error option \<Rightarrow> destroy_state \<Rightarrow> destroy_state" where
  "setDestroySnapOpErr [] err st = st"
| "setDestroySnapOpErr (r # b) err st = setDestroySnapOpErr b err (setErrOut r err st)"

fun Join :: "string list \<Rightarrow> string \<Rightarrow> string" where
  "Join [] sep = ''''"
| "Join [x] sep = x"
| "Join (x # y # xs) sep = x @ sep @ Join (y # xs) sep"

fun doDestroySeq :: "destroyer \<Rightarrow> DestroySnapOp list \<Rightarrow> destroy_state \<Rightarrow> destroy_state" where
  "doDestroySeq d [] st = st"
| "doDestroySeq d (r # reqs) st =
    (case Destroy d [op_Filesystem r @ ''@'' @ op_Name r] st of
       (err, st') \<Rightarrow> doDestroySeq d reqs (setErrOut r err st'))"

definition batchArg :: "DestroySnapOp list \<Rightarrow> string" where
  "batchArg batch = op_Filesystem (batch ! 0) @ ''@'' @ Join (map op_Name batch) '',''"

definition tryBatch ::
  "destroyer \<Rightarrow> DestroySnapOp list \<Rightarrow> destroy_state \<Rightarrow> (error option \<times> destroy_state) go" where
  "tryBatch d batch st =
    (if length batch = 0 then Return (None, st)
     else if list_ex (\<lambda>b. op_Filesystem (batch ! 0) \<noteq> op_Filesystem b) batch then
       Panic ''inconsistent batch''
     else Return (Destroy d [batchArg batch] st))"

text \<open>
  The test \<open>errors.As(err, &pe) && errors.Is(pe.Err, syscall.E2BIG)\<close> of
  \<open>doDestroyBatchedRec\<close>.
\<close>

definition isE2BIGPathError :: "error \<Rightarrow> bool" where
  "isE2BIGPathError err = (case As_PathError err of None \<Rightarrow> False | Some pe \<Rightarrow> Is_E2BIG pe)"

function doDestroyBatchedRec ::
  "destroyer \<Rightarrow> DestroySnapOp list \<Rightarrow> destroy_state \<Rightarrow> destroy_state go" where
  "doDestroyBatchedRec d fsbatch st =
    (if length fsbatch \<le> 1 then Return (doDestroySeq d fsbatch st)
     else
       case tryBatch d fsbatch st of
         Panic m \<Rightarrow> Panic m
       | Return (err, st1) \<Rightarrow>
           (case err of
              None \<Rightarrow> Return (setDestroySnapOpErr fsbatch None st1)
            | Some e \<Rightarrow>
                if isE2BIGPathError e then
                  (case doDestroyBatchedRec d (take (length fsbatch div 2) fsbatch) st1 of
                     Panic m \<Rightarrow> Panic m
                   | Return st2 \<Rightarrow>
                       doDestroyBatchedRec d (drop (length fsbatch div 2) fsbatch) st2)
                else
                  (case As_DestroySnapshotsError e of
                     Some undestroyable \<Rightarrow>
                       (let strippedBatch =
                              filter (\<lambda>b. op_Name b \<notin> set undestroyable) fsbatch;
                            remaining = filter (\<lambda>b. op_Name b \<in> set undestroyable) fsbatch
                        in case tryBatch d strippedBatch st1 of
                             Panic m \<Rightarrow> Panic m
                           | Return (err2, st2) \<Rightarrow>
                               (case err2 of
                                  Some e2 \<Rightarrow> Return (doDestroySeq d fsbatch st2)
                                | None \<Rightarrow>
                                    Return (doDestroySeq d remaining
                                      (setDestroySnapOpErr strippedBatch None st2))))
                   | None \<Rightarrow> Return (doDestroySeq d fsbatch st1))))"
  by pat_completeness auto
termination
  by (relation "measure (\<lambda>(d, fsbatch, st). length fsbatch)") auto

declare doDestroyBatchedRec.simps [simp del]

text \<open>
  The inner loop of \<open>buildBatches\<close>: \<open>batchConsumedUntil\<close> advances from \<open>consumed\<close>
  while the filesystem stays the same and the batch is below the size limit.
  \<open>maxBatchSize\<close> is the value of \<open>ZREPL_DESTROY_MAX_BATCH_SIZE\<close>.
\<close>

function scanBatch :: "int \<Rightarrow> DestroySnapOp list \<Rightarrow> nat \<Rightarrow> nat \<Rightarrow> nat" where
  "scanBatch maxBatchSize sorted' consumed batchConsumedUntil =
    (if batchConsumedUntil < length sorted'
        \<and> (maxBatchSize < 1 \<or> int batchConsumedUntil - int consumed < maxBatchSize)
        \<and> op_Filesystem (sorted' ! batchConsumedUntil) = op_Filesystem (sorted' ! consumed)
     then scanBatch maxBatchSize sorted' consumed (batchConsumedUntil + 1)
     else batchConsumedUntil)"
  by pat_completeness auto
termination
  by (relation "measure (\<lambda>(m, sorted', c, b). length sorted' - b)") auto

declare scanBatch.simps [simp del]

function groupLoop ::
  "int \<Rightarrow> DestroySnapOp list \<Rightarrow> nat \<Rightarrow> DestroySnapOp list list \<Rightarrow> DestroySnapOp list list" where
  "groupLoop maxBatchSize sorted' consumed perFS =
    (if consumed < length sorted' then
       (let batchConsumedUntil = scanBatch maxBatchSize sorted' consumed consumed
        in groupLoop maxBatchSize sorted' batchConsumedUntil
             (perFS @ [take (batchConsumedUntil - consumed) (drop consumed sorted')]))
     else perFS)"
  by pat_completeness auto
termination
proof (relation "measure (\<lambda>(m, sorted', c, perFS). length sorted' - c)")
  show "wf (measure (\<lambda>(m, sorted', c, perFS). length sorted' - c))" by simp
next
  fix maxBatchSize :: int and sorted' :: "DestroySnapOp list" and consumed :: nat
    and perFS :: "DestroySnapOp list list" and x :: nat
  assume c: "consumed < length sorted'"
    and x: "x = scanBatch maxBatchSize sorted' consumed consumed"
  have mono: "b \<le> scanBatch m s c0 b" for m s c0 b
    by (induction m s c0 b rule: scanBatch.induct)
       (subst scanBatch.simps, auto simp del: scanBatch.simps)
  have le: "x \<le> length sorted'" if "b \<le> length sorted'" "x = scanBatch m sorted' c0 b" for m c0 b x
    using that
    by (induction m sorted' c0 b arbitrary: x rule: scanBatch.induct)
       (subst (asm) (2) scanBatch.simps, auto simp del: scanBatch.simps split: if_splits)
  have "scanBatch maxBatchSize sorted' consumed consumed
      = scanBatch maxBatchSize sorted' consumed (consumed + 1)"
    using c by (subst scanBatch.simps) auto
  with mono [of "consumed + 1" maxBatchSize sorted' consumed] x have "consumed < x" by simp
  moreover from le [of consumed x maxBatchSize consumed] c x have "x \<le> length sorted'" by simp
  ultimately show "((maxBatchSize, sorted', x, perFS @ [take (x - consumed) (drop consumed sorted')]),
        (maxBatchSize, sorted', consumed, perFS))
      \<in> measure (\<lambda>(m, sorted', c, perFS). length sorted' - c)"
    using c by simp
qed

declare groupLoop.simps [simp del]

text \<open>
  \<open>buildBatches\<close> copies the requests, sorts the copy stably by filesystem and then by
  name (\<open>strings.Compare\<close> is the bytewise lexicographic order) and groups it.
\<close>

definition buildBatches :: "int \<Rightarrow> DestroySnapOp list \<Rightarrow> DestroySnapOp list list" where
  "buildBatches maxBatchSize reqs =
    (if length reqs = 0 then []
     else groupLoop maxBatchSize (sort_key (\<lambda>r. (op_Filesystem r, op_Name r)) reqs) 0 [])"

fun destroyBatches ::
  "destroyer \<Rightarrow> DestroySnapOp list list \<Rightarrow> destroy_state \<Rightarrow> destroy_state go" where
  "destroyBatches d [] st = Return st"
| "destroyBatches d (fsbatch # perFS) st =
    (case doDestroyBatchedRec d fsbatch st of
       Panic m \<Rightarrow> Panic m
     | Return st' \<Rightarrow> destroyBatches d perFS st')"

definition doDestroyBatched ::
  "destroyer \<Rightarrow> int \<Rightarrow> DestroySnapOp list \<Rightarrow> destroy_state \<Rightarrow> destroy_state go" where
  "doDestroyBatched d maxBatchSize reqs st = destroyBatches d (buildBatches maxBatchSize reqs) st"

text \<open>The validation loop of \<open>doDestroy\<close>, with \<open>validated\<close> as accumulator.\<close>

fun validateLoop ::
  "DestroySnapOp list \<Rightarrow> DestroySnapOp list \<times> destroy_state \<Rightarrow> DestroySnapOp list \<times> destroy_state" where
  "validateLoop [] acc = acc"
| "validateLoop (req # reqs) (validated, st) =
    validateLoop reqs
      (if op_Filesystem req = '''' then
         (validated, setErrOut req (Some (Error ''Filesystem must not be an empty string'')) st)
       else if op_Name req = '''' then
         (validated, setErrOut req (Some (Error ''Name must not be an empty string'')) st)
       else (validated @ [req], st))"

definition doDestroy ::
  "destroyer \<Rightarrow> int \<Rightarrow> DestroySnapOp list \<Rightarrow> destroy_state \<Rightarrow> destroy_state go" where
  "doDestroy d maxBatchSize reqs st =
    (case validateLoop reqs ([], st) of
       (validated, st1) \<Rightarrow> doDestroyBatched d maxBatchSize validated st1)"

section \<open>What the planner's properties assume and observe\<close>

text \<open>
  The target of a step: its from-version, its to-version and its resume token.  The size
  estimate is not part of it.
\<close>

definition step_core :: "Step \<Rightarrow> version_ptr option \<times> version_ptr option \<times> string" where
  "step_core s = (from_version s, to_version s, resumeToken s)"

text \<open>A path element that is a snapshot (and so is not nil).\<close>

definition snapshot_elem :: "version_ptr option \<Rightarrow> bool" where
  "snapshot_elem v = (case v of None \<Rightarrow> False | Some p \<Rightarrow> is_snapshot p)"

text \<open>
  The targets of the plan that, with one_step set, belongs to a path: none for the empty
  path, one step to the last version when the path starts with a snapshot, the one step
  of a path of two elements, and otherwise the step from the first element (nil or a
  bookmark) to the second followed by the step from the second element to the last.
\<close>

definition one_step_plan_of_path ::
  "version_ptr option list \<Rightarrow> (version_ptr option \<times> version_ptr option \<times> string) list" where
  "one_step_plan_of_path path =
    (if length path < 2 then []
     else if snapshot_elem (path ! 0) then [(path ! 0, last path, '''')]
     else if length path = 2 then [(path ! 0, path ! 1, '''')]
     else [(path ! 0, path ! 1, ''''), (path ! 1, last path, '''')])"

text \<open>
  \<open>doPlanning\<close> reaches the resume branch with the decoded token \<open>tok\<close> of the raw
  token \<open>raw\<close> and the sender versions \<open>sfsvs\<close>: the sender side is no placeholder,
  both listings succeed, the sender has a version, and the receiver's token decodes.
\<close>

definition entered_with_token ::
  "planner_env \<Rightarrow> Filesystem \<Rightarrow> zfs_ResumeToken \<Rightarrow> string \<Rightarrow> version_ptr list \<Rightarrow> bool" where
  "entered_with_token env fs tok raw sfsvs =
    (\<not> IsPlaceholder (senderFS fs)
     \<and> (\<exists>rvs. listBothVersions env fs = Inr (sfsvs, rvs))
     \<and> sfsvs \<noteq> []
     \<and> decodeResumeToken env fs = Inr (Some tok, raw))"

text \<open>\<open>SendDry\<close> answers with no more items than it was asked for.\<close>

definition SendDry_wellformed :: "planner_env \<Rightarrow> bool" where
  "SendDry_wellformed env =
    (\<forall>req items. SendDry env req = Inr items \<longrightarrow> length items \<le> length (Items req))"

text \<open>
  A path of \<open>IncrementalPath\<close> has only snapshots after its first element, which
  may be a bookmark.
\<close>

definition IncrementalPath_wellformed :: "planner_env \<Rightarrow> bool" where
  "IncrementalPath_wellformed env =
    (\<forall>r s path. IncrementalPath env r s = (path, None) \<longrightarrow> list_all snapshot_elem (tl path))"

section \<open>What the properties of the batched destruction observe\<close>

text \<open>A request that passes the validation of \<open>doDestroy\<close>.\<close>

definition valid_op :: "DestroySnapOp \<Rightarrow> bool" where
  "valid_op r = (op_Filesystem r \<noteq> '''' \<and> op_Name r \<noteq> '''')"

text \<open>A batch whose entries all have the same filesystem.\<close>

definition uniform :: "DestroySnapOp list \<Rightarrow> bool" where
  "uniform b = (\<forall>x\<in>set b. \<forall>y\<in>set b. op_Filesystem x = op_Filesystem y)"

text \<open>
  The arguments of one \<open>Destroy\<close> call are the batch argument of a non-empty batch on
  one filesystem, made of requests of \<open>B\<close>.
\<close>

definition from_batch :: "DestroySnapOp set \<Rightarrow> string list \<Rightarrow> bool" where
  "from_batch B args = (\<exists>b. b \<noteq> [] \<and> set b \<subseteq> B \<and> uniform b \<and> args = [batchArg b])"

text \<open>
  From \<open>st\<close> to \<open>st'\<close>, only error variables of requests of \<open>B\<close> were written, and
  every \<open>Destroy\<close> call made was made from requests of \<open>B\<close>.
\<close>

definition touches_only :: "DestroySnapOp set \<Rightarrow> destroy_state \<Rightarrow> destroy_state \<Rightarrow> bool" where
  "touches_only B st st' =
    ((\<forall>a. a \<notin> ErrOut ` B \<longrightarrow> errs st' a = errs st a)
     \<and> (\<exists>new. calls st' = calls st @ new \<and> (\<forall>args\<in>set new. from_batch B args)))"


text \<open>The two errors of the validation.\<close>

definition validation_error :: "error option \<Rightarrow> bool" where
  "validation_error e =
    (e = Some (Error ''Filesystem must not be an empty string'')
     \<or> e = Some (Error ''Name must not be an empty string''))"

section \<open>Concrete inputs\<close>

text \<open>
  The versions of the scenarios: snapshots \<open>@a\<close>, \<open>@b\<close>, \<open>@c\<close> at transaction groups
  1, 2, 3, a bookmark \<open>#b\<close> of \<open>@b\<close>, and a later snapshot \<open>@d\<close> with its bookmark
  \<open>#d\<close>.
\<close>

definition mk_version ::
  "VersionType \<Rightarrow> nat \<Rightarrow> string \<Rightarrow> 64 word \<Rightarrow> 64 word \<Rightarrow> version_ptr" where
  "mk_version ty a n g t =
    (a, \<lparr>Type = ty, Name = n, Guid = g, CreateTXG = t, Creation = ''2026-01-01T00:00:00Z''\<rparr>)"

definition snap_a :: version_ptr where "snap_a = mk_version Snapshot 1 ''a'' 101 1"
definition snap_b :: version_ptr where "snap_b = mk_version Snapshot 2 ''b'' 102 2"
definition snap_c :: version_ptr where "snap_c = mk_version Snapshot 3 ''c'' 103 3"
definition book_b :: version_ptr where "book_b = mk_version Bookmark 4 ''b'' 102 2"
definition book_d :: version_ptr where "book_d = mk_version Bookmark 5 ''d'' 104 4"
definition snap_d :: version_ptr where "snap_d = mk_version Snapshot 6 ''d'' 104 4"

definition policy_of :: "InitialReplicationAutoResolution \<Rightarrow> ConflictResolution" where
  "policy_of r = \<lparr>InitialReplication = r\<rparr>"

lemmas version_defs =
  mk_version_def snap_a_def snap_b_def snap_c_def book_b_def book_d_def snap_d_def
  policy_of_def

text \<open>A filesystem that the receiver does not have yet, and the same with a receiver side.\<close>

definition fs_data :: Filesystem where
  "fs_data =
    \<lparr>policy = \<lparr>ConflictResolution = policy_of InitialReplicationAutoResolutionAll,
               ReplicationConfig = 0, SizeEstimationConcurrency = 1\<rparr>,
     Path = ''pool/data'', receiverFS = None,
     senderFS = \<lparr>pdu_Path = ''pool/data'', IsPlaceholder = False, ResumeToken = ''''\<rparr>,
     promBytesReplicated = True\<rparr>"

definition with_receiver :: "Filesystem \<Rightarrow> string \<Rightarrow> Filesystem" where
  "with_receiver fs tok =
    fs\<lparr>receiverFS := Some \<lparr>pdu_Path = Path fs, IsPlaceholder = False, ResumeToken = tok\<rparr>\<rparr>"


text \<open>Selecting the \<open>Receive\<close> calls among the calls of a step.\<close>

fun is_CallReceive :: "call \<Rightarrow> bool" where
  "is_CallReceive (CallReceive rr strm) = True"
| "is_CallReceive c = False"

text \<open>A sender that answers with a result and a stream, and one that answers with nil.\<close>

definition env_send_ok :: step_env where
  "env_send_ok =
    \<lparr>Send = (\<lambda>sr. (Some \<lparr>UsedResumeToken = (sr_ResumeToken sr \<noteq> ''''), ExpectedSize = 0\<rparr>,
                    Some 7, None)),
     Receive = (\<lambda>rr strm. (1024, None)),
     SendCompleted = (\<lambda>sr. None)\<rparr>"

definition env_send_nil :: step_env where
  "env_send_nil =
    \<lparr>Send = (\<lambda>sr. (None, None, None)),
     Receive = (\<lambda>rr strm. (1024, None)),
     SendCompleted = (\<lambda>sr. None)\<rparr>"

text \<open>
  Modelled from the spec: \<open>SortVersionListByCreateTXGThenBookmarkLTSnapshot\<close> and
  \<open>IncrementalPath\<close> of package \<open>diff\<close>, for the environment of the scenarios.  The
  sort is a stable sort by creation TXG, a bookmark before a snapshot of the same TXG.
  \<open>IncrementalPath\<close> follows the version algebra for receivers whose versions are all
  on the sender: no shared GUID is a NoCommonAncestor conflict carrying the two sorted
  lists, the sender's tip on the receiver is MostRecentSnapshotAlreadyPresent, and
  otherwise the path is the last sender version that the receiver has, followed by the
  later sender snapshots.  In that environment every dry send is estimated at 4096
  bytes, and every token decodes to the given one.
\<close>

definition sort_versions :: "version_ptr list \<Rightarrow> version_ptr list" where
  "sort_versions vs = sort_key (\<lambda>v. (CreateTXG (snd v), Type (snd v) = Snapshot)) vs"

definition on_receiver :: "version_ptr list \<Rightarrow> version_ptr \<Rightarrow> bool" where
  "on_receiver rfsvs v = list_ex (\<lambda>r. Guid (snd r) = Guid (snd v)) rfsvs"

definition IncrementalPath_scenarios ::
  "version_ptr list \<Rightarrow> version_ptr list \<Rightarrow> version_ptr option list \<times> error option" where
  "IncrementalPath_scenarios rfsvs sfsvs =
    (let r = sort_versions rfsvs; s = sort_versions sfsvs in
     if \<not> list_ex (on_receiver r) s then ([], Some (ConflictNoCommonAncestor s r))
     else if on_receiver r (last s) then ([], Some ConflictMostRecentSnapshotAlreadyPresent)
     else
       (case rev (takeWhile (\<lambda>v. \<not> on_receiver r v) (rev s)) of
          later \<Rightarrow>
            (Some (s ! (length s - length later - 1)) # map Some (filter is_snapshot later), None)))"

definition env_scenarios :: "version_ptr list \<Rightarrow> version_ptr list \<Rightarrow> zfs_ResumeToken \<Rightarrow> planner_env" where
  "env_scenarios svs rvs tok =
    \<lparr>senderListFilesystemVersions = (\<lambda>p. Inr svs),
     receiverListFilesystemVersions = (\<lambda>p. Inr rvs),
     SendDry = (\<lambda>req. Inr (map (\<lambda>i. 4096) (Items req))),
     ParseResumeToken = (\<lambda>raw. Inr tok),
     SortVersionListByCreateTXGThenBookmarkLTSnapshot = sort_versions,
     IncrementalPath = IncrementalPath_scenarios\<rparr>"

definition token_a_b :: zfs_ResumeToken where
  "token_a_b = \<lparr>HasFromGUID = True, HasToGUID = True, FromGUID = 101, ToGUID = 102, ToName = ''pool/data@b''\<rparr>"


definition token_b_b :: zfs_ResumeToken where
  "token_b_b = \<lparr>HasFromGUID = True, HasToGUID = True, FromGUID = 102, ToGUID = 102, ToName = ''pool/data@b''\<rparr>"

lemmas word_cmp = word_le_nat_alt word_less_nat_alt

text \<open>
  Five destroy requests on two filesystems, two of them invalid; a destroyer that
  always succeeds; a state in which no request has been answered.
\<close>

definition mk_op :: "string \<Rightarrow> string \<Rightarrow> nat \<Rightarrow> DestroySnapOp" where
  "mk_op fs n a = \<lparr>op_Filesystem = fs, op_Name = n, ErrOut = a\<rparr>"

definition reqs_example :: "DestroySnapOp list" where
  "reqs_example =
    [mk_op ''pool/b'' ''s1'' 0, mk_op '''' ''s2'' 1, mk_op ''pool/a'' ''s2'' 2,
     mk_op ''pool/b'' '''' 3, mk_op ''pool/a'' ''s1'' 4]"

definition destroyer_ok :: destroyer where
  "destroyer_ok history args = None"

definition state_empty :: destroy_state where
  "state_empty = \<lparr>errs = (\<lambda>a. Some (Error ''not run'')), calls = []\<rparr>"

section \<open>Properties of the conflict auto-resolver\<close>

definition txg_sorted :: "version_ptr list \<Rightarrow> bool" where
  "txg_sorted vs = sorted_wrt (\<lambda>a b. CreateTXG (snd a) \<le> CreateTXG (snd b)) vs"

text \<open>
  The pure initial replication that the policy decides: the conflict is, as
  \<open>errors.As\<close> finds it, a NoCommonAncestor with nothing on the receiver and something
  on the sender.
\<close>

definition initial_replication_case :: "error \<Rightarrow> bool" where
  "initial_replication_case c =
    (case As_ConflictNoCommonAncestor c of
       Some (ssv, srv) \<Rightarrow> srv = [] \<and> ssv \<noteq> []
     | None \<Rightarrow> False)"

lemma As_conflict_exclusive:
  "As_ConflictNoCommonAncestor c = Some x \<Longrightarrow> \<not> As_ConflictMostRecentSnapshotAlreadyPresent c"
  by (induction c) auto

lemma find_rev_last_filter:
  "find P (rev xs) = (if filter P xs = [] then None else Some (last (filter P xs)))"
  by (induction xs rule: rev_induct) auto

lemma mostRecentSnap_last:
  "mostRecentSnap vs =
    (if filter is_snapshot vs = [] then None else Some (last (filter is_snapshot vs)))"
  unfolding mostRecentSnap_def by (rule find_rev_last_filter)

lemma txg_sorted_filter: "txg_sorted vs \<Longrightarrow> txg_sorted (filter P vs)"
  unfolding txg_sorted_def by (rule sorted_wrt_filter)

lemma last_filter_split:
  assumes "filter P xs \<noteq> []"
  shows "\<exists>pre post. xs = pre @ last (filter P xs) # post \<and> filter P post = []"
  using assms
proof (induction xs rule: rev_induct)
  case Nil
  then show ?case by simp
next
  case (snoc x xs)
  show ?case
  proof (cases "P x")
    case True
    then have "xs @ [x] = xs @ last (filter P (xs @ [x])) # [] \<and> filter P [] = []" by simp
    then show ?thesis by blast
  next
    case False
    with snoc.prems have ne: "filter P xs \<noteq> []" by simp
    from snoc.IH [OF ne] obtain pre post where
      "xs = pre @ last (filter P xs) # post" "filter P post = []" by blast
    with False have "xs @ [x] = pre @ last (filter P (xs @ [x])) # (post @ [x])
        \<and> filter P (post @ [x]) = []"
      by simp
    then show ?thesis by blast
  qed
qed

text \<open>
  C3.  A NoCommonAncestor conflict with an empty receiver list and a non-empty sender
  list, under the policy All: the resolver returns, with no error, a path whose first
  element is nil and whose other elements are exactly the sender's snapshots, in the
  order of the sender list (so in TXG order when that list is in TXG order); no bookmark
  is in the path.
\<close>

theorem autoresolve_all_path:
  assumes "srv = []" and "ssv \<noteq> []"
    and "InitialReplication pol = InitialReplicationAutoResolutionAll"
  shows "\<exists>path. tryAutoresolveConflict (ConflictNoCommonAncestor ssv srv) pol
          = Return (path, None)
      \<and> path \<noteq> [] \<and> hd path = None
      \<and> tl path = map Some (filter is_snapshot ssv)
      \<and> (\<forall>v. Some v \<in> set (tl path) \<longleftrightarrow> v \<in> set ssv \<and> Type (snd v) = Snapshot)
      \<and> (\<forall>v. Some v \<in> set path \<longrightarrow> Type (snd v) \<noteq> Bookmark)
      \<and> (txg_sorted ssv \<longrightarrow> txg_sorted (map the (tl path)))"
  using assms
  by (auto simp: tryAutoresolveConflict_def is_snapshot_def comp_def txg_sorted_filter)

theorem autoresolve_all_path_witness:
  "[snap_a, book_b, snap_b, snap_c, book_d] \<noteq> []
    \<and> InitialReplication (policy_of InitialReplicationAutoResolutionAll)
        = InitialReplicationAutoResolutionAll
    \<and> txg_sorted [snap_a, book_b, snap_b, snap_c, book_d]
    \<and> tryAutoresolveConflict
         (ConflictNoCommonAncestor [snap_a, book_b, snap_b, snap_c, book_d] [])
         (policy_of InitialReplicationAutoResolutionAll)
       = Return ([None, Some snap_a, Some snap_b, Some snap_c], None)"
proof -
  let ?ssv = "[snap_a, book_b, snap_b, snap_c, book_d]"
  let ?p = "policy_of InitialReplicationAutoResolutionAll"
  have h1: "?ssv \<noteq> []" by simp
  have h2: "InitialReplication ?p = InitialReplicationAutoResolutionAll"
    by (simp add: policy_of_def)
  have f: "filter is_snapshot ?ssv = [snap_a, snap_b, snap_c]"
    by (simp add: is_snapshot_def version_defs)
  have s: "txg_sorted ?ssv" by (simp add: txg_sorted_def version_defs)
  from autoresolve_all_path [OF refl h1 h2] obtain path where
    p: "tryAutoresolveConflict (ConflictNoCommonAncestor ?ssv []) ?p = Return (path, None)"
       "path \<noteq> []" "hd path = None" "tl path = map Some (filter is_snapshot ?ssv)"
    by blast
  from p(2,3,4) f have "path = [None, Some snap_a, Some snap_b, Some snap_c]"
    by (cases path) simp_all
  with p(1) h1 h2 s show ?thesis by simp
qed

text \<open>
  C4.  The claim holds of the code where the sender list holds a snapshot (the lemma
  after this one) and the code breaks it where the sender list is non-empty and holds
  bookmarks only: the backwards loop finds no snapshot, and the resolver returns the
  path [nil, nil] with no error, whose second element is no snapshot.  The guard before
  the loop tests the version list for emptiness, while its error speaks of snapshots.
\<close>

theorem autoresolve_most_recent_no_snapshot:
  "tryAutoresolveConflict (ConflictNoCommonAncestor [book_b, book_d] [])
     (policy_of InitialReplicationAutoResolutionMostRecent) = Return ([None, None], None)"
  by (simp add: tryAutoresolveConflict_def mostRecentSnap_def version_defs is_snapshot_def)

text \<open>
  A NoCommonAncestor conflict with an empty receiver list and a sender list that holds
  at least one snapshot, under the policy MostRecent: the resolver returns the
  two-element path [nil, s] with no error, where s is the last snapshot of the sender
  list; everything after s in the list is a bookmark, and in a list in TXG order no
  snapshot has a larger TXG than s.
\<close>

lemma autoresolve_most_recent_path:
  assumes "srv = []" and "filter is_snapshot ssv \<noteq> []"
    and "InitialReplication pol = InitialReplicationAutoResolutionMostRecent"
  shows "\<exists>s post. tryAutoresolveConflict (ConflictNoCommonAncestor ssv srv) pol
        = Return ([None, Some s], None)
      \<and> s = last (filter is_snapshot ssv)
      \<and> s \<in> set ssv \<and> Type (snd s) = Snapshot
      \<and> (\<exists>pre. ssv = pre @ s # post) \<and> filter is_snapshot post = []
      \<and> (txg_sorted ssv \<longrightarrow>
            (\<forall>v\<in>set ssv. is_snapshot v \<longrightarrow> CreateTXG (snd v) \<le> CreateTXG (snd s)))"
proof -
  let ?s = "last (filter is_snapshot ssv)"
  from assms(2) have ne: "ssv \<noteq> []" by auto
  have res: "tryAutoresolveConflict (ConflictNoCommonAncestor ssv srv) pol
      = Return ([None, Some ?s], None)"
    using assms ne by (simp add: tryAutoresolveConflict_def mostRecentSnap_last)
  have mem: "?s \<in> set (filter is_snapshot ssv)" using assms(2) by (rule last_in_set)
  then have mem2: "?s \<in> set ssv" "Type (snd ?s) = Snapshot" by (simp_all add: is_snapshot_def)
  from last_filter_split [OF assms(2)] obtain pre post where
    pp: "ssv = pre @ ?s # post" "filter is_snapshot post = []" by blast
  then have ex: "\<exists>pre. ssv = pre @ ?s # post" by blast
  have txg: "CreateTXG (snd v) \<le> CreateTXG (snd ?s)"
    if srt: "txg_sorted ssv" and v: "v \<in> set ssv" "is_snapshot v" for v
  proof -
    from pp(2) v(2) have "v \<notin> set post" by (auto simp: filter_empty_conv)
    with v(1) pp(1) have "v \<in> set pre \<or> v = ?s"
      by (metis Un_iff set_ConsD set_append)
    moreover from srt have "sorted_wrt (\<lambda>a b. CreateTXG (snd a) \<le> CreateTXG (snd b))
        (pre @ ?s # post)"
      unfolding txg_sorted_def by (subst (asm) pp(1))
    then have "\<forall>x\<in>set pre. CreateTXG (snd x) \<le> CreateTXG (snd ?s)"
      by (simp add: sorted_wrt_append)
    ultimately show ?thesis by auto
  qed
  from res mem2 ex pp(2) txg show ?thesis by blast
qed

lemma autoresolve_most_recent_path_example:
  "filter is_snapshot [snap_a, book_b, snap_b, snap_c, book_d] \<noteq> []
    \<and> tryAutoresolveConflict
         (ConflictNoCommonAncestor [snap_a, book_b, snap_b, snap_c, book_d] [])
         (policy_of InitialReplicationAutoResolutionMostRecent)
       = Return ([None, Some snap_c], None)"
proof -
  let ?ssv = "[snap_a, book_b, snap_b, snap_c, book_d]"
  let ?p = "policy_of InitialReplicationAutoResolutionMostRecent"
  have f: "filter is_snapshot ?ssv = [snap_a, snap_b, snap_c]"
    by (simp add: is_snapshot_def version_defs)
  then have h1: "filter is_snapshot ?ssv \<noteq> []" by simp
  have h2: "InitialReplication ?p = InitialReplicationAutoResolutionMostRecent"
    by (simp add: policy_of_def)
  from autoresolve_most_recent_path [OF refl h1 h2] obtain s where
    "tryAutoresolveConflict (ConflictNoCommonAncestor ?ssv []) ?p = Return ([None, Some s], None)"
    "s = last (filter is_snapshot ?ssv)"
    by blast
  with f h1 show ?thesis by simp
qed

text \<open>
  C5.  The policy decides nothing outside the pure initial replication: for any other
  conflict, wrapped or not, the result is the same under every two policies, and in the
  pure initial replication the policies Fail and All give different results.  A
  DivergedAfter conflict, and a NoCommonAncestor conflict with a non-empty receiver
  list, come back unchanged with an empty path, as does every error that is neither of
  the two conflicts the resolver knows; MostRecentAlreadyPresent gives the empty path
  and no error; a NoCommonAncestor conflict with both lists empty gives an error under
  every policy.
\<close>

theorem autoresolve_policy_consulted:
  "(\<not> initial_replication_case c \<longrightarrow>
      tryAutoresolveConflict c p = tryAutoresolveConflict c p')
   \<and> (initial_replication_case c \<longrightarrow>
      tryAutoresolveConflict c (policy_of InitialReplicationAutoResolutionFail)
        \<noteq> tryAutoresolveConflict c (policy_of InitialReplicationAutoResolutionAll))
   \<and> tryAutoresolveConflict (ConflictDiverged a ss rs) p
        = Return ([], Some (ConflictDiverged a ss rs))
   \<and> (srv \<noteq> [] \<longrightarrow> tryAutoresolveConflict (ConflictNoCommonAncestor ssv srv) p
          = Return ([], Some (ConflictNoCommonAncestor ssv srv)))
   \<and> tryAutoresolveConflict ConflictMostRecentSnapshotAlreadyPresent p = Return ([], None)
   \<and> tryAutoresolveConflict (ConflictNoCommonAncestor [] []) p
        = Return ([], Some (Error ''no snapshots available on sender side''))
   \<and> (As_ConflictMostRecentSnapshotAlreadyPresent c \<longrightarrow>
        tryAutoresolveConflict c p = Return ([], None))
   \<and> (\<not> As_ConflictMostRecentSnapshotAlreadyPresent c \<and> As_ConflictNoCommonAncestor c = None \<longrightarrow>
        tryAutoresolveConflict c p = Return ([], Some c))
   \<and> (As_ConflictNoCommonAncestor c = Some (ssv, srv) \<and> srv \<noteq> [] \<longrightarrow>
        tryAutoresolveConflict c p = Return ([], Some c))
   \<and> (As_ConflictNoCommonAncestor c = Some ([], []) \<longrightarrow>
        tryAutoresolveConflict c p
          = Return ([], Some (Error ''no snapshots available on sender side'')))"
proof -
  have nm: "\<not> As_ConflictMostRecentSnapshotAlreadyPresent c"
    if "As_ConflictNoCommonAncestor c = Some x" for x
    using that by (rule As_conflict_exclusive)
  have 1: "tryAutoresolveConflict c p = tryAutoresolveConflict c p'"
    if "\<not> initial_replication_case c"
    using that
    by (auto simp: tryAutoresolveConflict_def initial_replication_case_def
        split: option.splits prod.splits)
  have 2: "tryAutoresolveConflict c (policy_of InitialReplicationAutoResolutionFail)
        \<noteq> tryAutoresolveConflict c (policy_of InitialReplicationAutoResolutionAll)"
    if "initial_replication_case c"
    using that nm
    by (auto simp: tryAutoresolveConflict_def initial_replication_case_def policy_of_def
        split: option.splits prod.splits)
  have 3: "tryAutoresolveConflict c p = Return ([], None)"
    if "As_ConflictMostRecentSnapshotAlreadyPresent c"
    using that by (simp add: tryAutoresolveConflict_def)
  have 4: "tryAutoresolveConflict c p = Return ([], Some c)"
    if "\<not> As_ConflictMostRecentSnapshotAlreadyPresent c" "As_ConflictNoCommonAncestor c = None"
    using that by (simp add: tryAutoresolveConflict_def)
  have 5: "tryAutoresolveConflict c p = Return ([], Some c)"
    if "As_ConflictNoCommonAncestor c = Some (ssv, srv)" "srv \<noteq> []"
    using that nm [OF that(1)] by (simp add: tryAutoresolveConflict_def)
  have 6: "tryAutoresolveConflict c p
      = Return ([], Some (Error ''no snapshots available on sender side''))"
    if "As_ConflictNoCommonAncestor c = Some ([], [])"
    using that nm [OF that] by (simp add: tryAutoresolveConflict_def)
  have 7: "tryAutoresolveConflict (ConflictDiverged a ss rs) p
        = Return ([], Some (ConflictDiverged a ss rs))"
    "srv \<noteq> [] \<longrightarrow> tryAutoresolveConflict (ConflictNoCommonAncestor ssv srv) p
          = Return ([], Some (ConflictNoCommonAncestor ssv srv))"
    "tryAutoresolveConflict ConflictMostRecentSnapshotAlreadyPresent p = Return ([], None)"
    "tryAutoresolveConflict (ConflictNoCommonAncestor [] []) p
        = Return ([], Some (Error ''no snapshots available on sender side''))"
    by (simp_all add: tryAutoresolveConflict_def)
  from 1 2 3 4 5 6 7 show ?thesis by blast
qed

theorem autoresolve_policy_consulted_witness:
  "\<not> initial_replication_case (Wrapped ''sender'' (ConflictNoCommonAncestor [snap_a, snap_b] [snap_c]))
   \<and> As_ConflictNoCommonAncestor (Wrapped ''sender'' (ConflictNoCommonAncestor [snap_a, snap_b] [snap_c]))
      = Some ([snap_a, snap_b], [snap_c])
   \<and> [snap_c] \<noteq> []
   \<and> tryAutoresolveConflict (Wrapped ''sender'' (ConflictNoCommonAncestor [snap_a, snap_b] [snap_c]))
        (policy_of InitialReplicationAutoResolutionAll)
      = tryAutoresolveConflict (Wrapped ''sender'' (ConflictNoCommonAncestor [snap_a, snap_b] [snap_c]))
        (policy_of (InitialReplicationAutoResolutionOther 7))
   \<and> tryAutoresolveConflict (Wrapped ''sender'' (ConflictNoCommonAncestor [snap_a, snap_b] [snap_c]))
        (policy_of InitialReplicationAutoResolutionMostRecent)
      = Return ([], Some (Wrapped ''sender'' (ConflictNoCommonAncestor [snap_a, snap_b] [snap_c])))
   \<and> initial_replication_case (Wrapped ''sender'' (ConflictNoCommonAncestor [snap_a] []))
   \<and> tryAutoresolveConflict (Wrapped ''sender'' (ConflictNoCommonAncestor [snap_a] []))
        (policy_of InitialReplicationAutoResolutionFail)
      \<noteq> tryAutoresolveConflict (Wrapped ''sender'' (ConflictNoCommonAncestor [snap_a] []))
        (policy_of InitialReplicationAutoResolutionAll)"
proof -
  let ?c = "Wrapped ''sender'' (ConflictNoCommonAncestor [snap_a, snap_b] [snap_c])"
  let ?i = "Wrapped ''sender'' (ConflictNoCommonAncestor [snap_a] [])"
  have h1: "\<not> initial_replication_case ?c" by (simp add: initial_replication_case_def)
  have h2: "[snap_c] \<noteq> []" by simp
  have h3: "As_ConflictNoCommonAncestor ?c = Some ([snap_a, snap_b], [snap_c])" by simp
  have h4: "initial_replication_case ?i" by (simp add: initial_replication_case_def)
  note t = autoresolve_policy_consulted [of ?c "policy_of InitialReplicationAutoResolutionAll"
      "policy_of (InitialReplicationAutoResolutionOther 7)" snap_a "[]" "[]" "[snap_c]"
      "[snap_a, snap_b]"]
  from t h1
  have e1: "tryAutoresolveConflict ?c (policy_of InitialReplicationAutoResolutionAll)
      = tryAutoresolveConflict ?c (policy_of (InitialReplicationAutoResolutionOther 7))"
    by (elim conjE) (erule mp, assumption)
  note t2 = autoresolve_policy_consulted [of ?c "policy_of InitialReplicationAutoResolutionMostRecent"
      "policy_of (InitialReplicationAutoResolutionOther 7)" snap_a "[]" "[]" "[snap_c]"
      "[snap_a, snap_b]"]
  from h3 h2 have h32: "As_ConflictNoCommonAncestor ?c = Some ([snap_a, snap_b], [snap_c])
      \<and> [snap_c] \<noteq> []" by (rule conjI)
  from t2 have "As_ConflictNoCommonAncestor ?c = Some ([snap_a, snap_b], [snap_c])
      \<and> [snap_c] \<noteq> [] \<longrightarrow>
      tryAutoresolveConflict ?c (policy_of InitialReplicationAutoResolutionMostRecent)
        = Return ([], Some ?c)"
    by (elim conjE)
  with h32
  have e2: "tryAutoresolveConflict ?c (policy_of InitialReplicationAutoResolutionMostRecent)
      = Return ([], Some ?c)"
    by (rule mp [rotated])
  note t3 = autoresolve_policy_consulted [of ?i "policy_of InitialReplicationAutoResolutionAll"
      "policy_of (InitialReplicationAutoResolutionOther 7)" snap_a "[]" "[]" "[snap_c]"
      "[snap_a, snap_b]"]
  from t3 have "initial_replication_case ?i \<longrightarrow>
      tryAutoresolveConflict ?i (policy_of InitialReplicationAutoResolutionFail)
        \<noteq> tryAutoresolveConflict ?i (policy_of InitialReplicationAutoResolutionAll)"
    by (elim conjE)
  with h4
  have e3: "tryAutoresolveConflict ?i (policy_of InitialReplicationAutoResolutionFail)
        \<noteq> tryAutoresolveConflict ?i (policy_of InitialReplicationAutoResolutionAll)"
    by (rule mp [rotated])
  from h1 h3 h2 e1 e2 h4 e3 show ?thesis by (intro conjI)
qed

section \<open>Properties of steps\<close>

text \<open>
  C8, as the claim states it, fails in its second half: two steps whose parents are
  different filesystems with the same path do not make \<open>TargetEquals\<close> panic; it
  returns.
\<close>

theorem TargetEquals_same_path_no_panic:
  "parent (mkStep fs_data (Some snap_a) (Some snap_b) '''')
      \<noteq> parent (mkStep (with_receiver fs_data '''') (Some snap_a) (Some snap_b) '''')
   \<and> Path (parent (mkStep fs_data (Some snap_a) (Some snap_b) ''''))
      = Path (parent (mkStep (with_receiver fs_data '''') (Some snap_a) (Some snap_b) ''''))
   \<and> TargetEquals (mkStep fs_data (Some snap_a) (Some snap_b) '''')
        (LogicStep (mkStep (with_receiver fs_data '''') (Some snap_a) (Some snap_b) ''''))
      = Return True"
  by (simp add: TargetEquals_def EqualToPreviousAttempt_def mkStep_def with_receiver_def
      fs_data_def GetGuid_def)

text \<open>
  C8, amended.  For every pair of steps, \<open>TargetEquals\<close> returns true exactly when
  their parents have the same path and their from-GUIDs and to-GUIDs match (the GUID of
  a nil version being 0); it panics exactly when the parents' paths differ; different
  parents with the same path make it return.
\<close>

theorem TargetEquals_iff:
  "(TargetEquals s (LogicStep t) = Return True \<longleftrightarrow>
      Path (parent s) = Path (parent t)
      \<and> GetGuid (from_version s) = GetGuid (from_version t)
      \<and> GetGuid (to_version s) = GetGuid (to_version t))
   \<and> ((\<exists>m. TargetEquals s (LogicStep t) = Panic m) \<longleftrightarrow> Path (parent s) \<noteq> Path (parent t))
   \<and> (parent s \<noteq> parent t \<and> Path (parent s) = Path (parent t) \<longrightarrow>
        (\<exists>b. TargetEquals s (LogicStep t) = Return b))"
  by (auto simp: TargetEquals_def EqualToPreviousAttempt_def)

theorem TargetEquals_iff_witness:
  "Path (parent (mkStep fs_data None (Some snap_b) '''')) = Path (with_receiver fs_data '''')
   \<and> parent (mkStep fs_data None (Some snap_b) '''') \<noteq> with_receiver fs_data ''''
   \<and> TargetEquals (mkStep fs_data None (Some snap_b) '''')
        (LogicStep (mkStep (with_receiver fs_data '''') None (Some snap_b) '''')) = Return True"
proof -
  let ?s = "mkStep fs_data None (Some snap_b) ''''"
  let ?t = "mkStep (with_receiver fs_data '''') None (Some snap_b) ''''"
  have p: "Path (parent ?s) = Path (parent ?t)" "parent ?s \<noteq> parent ?t"
    by (simp_all add: mkStep_def with_receiver_def fs_data_def)
  have g: "GetGuid (from_version ?s) = GetGuid (from_version ?t)"
    "GetGuid (to_version ?s) = GetGuid (to_version ?t)"
    by (simp_all add: mkStep_def)
  from TargetEquals_iff [of ?s ?t] p g have "TargetEquals ?s (LogicStep ?t) = Return True"
    by blast
  with p show ?thesis by (simp add: mkStep_def)
qed



text \<open>
  C7.  When \<open>Send\<close> returns a result and a stream and no error, \<open>sendRecv\<close> calls
  \<open>Receive\<close> once, with a request whose ClearResumeToken is the negation of the
  result's UsedResumeToken, and returns what \<open>Receive\<close> returns.  When \<open>Send\<close>
  returns no error but a nil result or a nil stream, \<open>sendRecv\<close> returns an error and
  never calls \<open>Receive\<close>.
\<close>

theorem sendRecv_receive_request:
  "(Send env sr = (Some res, Some strm, None) \<longrightarrow>
      filter is_CallReceive (snd (snd (sendRecv env s sr)))
        = [CallReceive \<lparr>rr_Filesystem = Path (parent s), rr_To = sr_To sr,
                        ClearResumeToken = (\<not> UsedResumeToken res),
                        rr_ReplicationConfig = ReplicationConfig (policy (parent s))\<rparr> strm]
      \<and> fst (sendRecv env s sr)
        = snd (Receive env \<lparr>rr_Filesystem = Path (parent s), rr_To = sr_To sr,
                        ClearResumeToken = (\<not> UsedResumeToken res),
                        rr_ReplicationConfig = ReplicationConfig (policy (parent s))\<rparr> strm))
   \<and> (Send env sr = (None, strm', None) \<or> Send env sr = (res', None, None) \<longrightarrow>
        fst (sendRecv env s sr) \<noteq> None
        \<and> filter is_CallReceive (snd (snd (sendRecv env s sr))) = [])"
  by (auto simp: sendRecv_def Let_def split: prod.splits option.splits)

theorem sendRecv_receive_request_witness:
  "Send env_send_ok (buildSendRequest (mkStep fs_data (Some snap_a) (Some snap_b) ''1-token''))
      = (Some \<lparr>UsedResumeToken = True, ExpectedSize = 0\<rparr>, Some 7, None)
   \<and> filter is_CallReceive (snd (snd (sendRecv env_send_ok
        (mkStep fs_data (Some snap_a) (Some snap_b) ''1-token'')
        (buildSendRequest (mkStep fs_data (Some snap_a) (Some snap_b) ''1-token'')))))
      = [CallReceive \<lparr>rr_Filesystem = ''pool/data'', rr_To = Some snap_b,
                      ClearResumeToken = False, rr_ReplicationConfig = 0\<rparr> 7]
   \<and> Send env_send_nil (buildSendRequest (mkStep fs_data (Some snap_a) (Some snap_b) ''''))
      = (None, None, None)
   \<and> fst (sendRecv env_send_nil (mkStep fs_data (Some snap_a) (Some snap_b) '''')
        (buildSendRequest (mkStep fs_data (Some snap_a) (Some snap_b) ''''))) \<noteq> None
   \<and> filter is_CallReceive (snd (snd (sendRecv env_send_nil
        (mkStep fs_data (Some snap_a) (Some snap_b) '''')
        (buildSendRequest (mkStep fs_data (Some snap_a) (Some snap_b) ''''))))) = []"
proof -
  let ?s = "mkStep fs_data (Some snap_a) (Some snap_b) ''1-token''"
  let ?t = "mkStep fs_data (Some snap_a) (Some snap_b) ''''"
  let ?res = "\<lparr>UsedResumeToken = True, ExpectedSize = 0\<rparr>"
  have ok: "Send env_send_ok (buildSendRequest ?s) = (Some ?res, Some 7, None)"
    by (simp add: env_send_ok_def buildSendRequest_def mkStep_def)
  have nil: "Send env_send_nil (buildSendRequest ?t) = (None, None, None)"
    by (simp add: env_send_nil_def)
  have v: "Path (parent ?s) = ''pool/data''" "sr_To (buildSendRequest ?s) = Some snap_b"
    "ReplicationConfig (policy (parent ?s)) = 0"
    by (simp_all add: buildSendRequest_def mkStep_def fs_data_def)
  from sendRecv_receive_request [of env_send_ok "buildSendRequest ?s" ?res 7 ?s None None] ok v
  have a: "filter is_CallReceive (snd (snd (sendRecv env_send_ok ?s (buildSendRequest ?s))))
      = [CallReceive \<lparr>rr_Filesystem = ''pool/data'', rr_To = Some snap_b,
                      ClearResumeToken = False, rr_ReplicationConfig = 0\<rparr> 7]"
    by simp
  from sendRecv_receive_request [of env_send_nil "buildSendRequest ?t" ?res 7 ?t None None] nil
  have b: "fst (sendRecv env_send_nil ?t (buildSendRequest ?t)) \<noteq> None"
    "filter is_CallReceive (snd (snd (sendRecv env_send_nil ?t (buildSendRequest ?t)))) = []"
    by simp_all
  from ok nil a b show ?thesis by simp
qed

section \<open>Properties of the planner\<close>

lemma setExpectedSizes_core:
  "setExpectedSizes steps items = Return steps' \<Longrightarrow> map step_core steps' = map step_core steps"
  by (induction steps items arbitrary: steps' rule: setExpectedSizes.induct)
     (auto simp: step_core_def split: go.splits)

lemma setExpectedSizes_total:
  "length items \<le> length steps \<Longrightarrow> \<exists>steps'. setExpectedSizes steps items = Return steps'"
  by (induction steps items rule: setExpectedSizes.induct) auto

lemma updateSizeEstimates_core:
  "updateSizeEstimates env fs steps = Return (steps', e) \<Longrightarrow>
    map step_core steps' = map step_core steps"
  by (auto simp: updateSizeEstimates_def split: sum.splits go.splits dest: setExpectedSizes_core)

lemma updateSizeEstimates_total:
  assumes "SendDry_wellformed env"
  shows "\<exists>steps' e. updateSizeEstimates env fs steps = Return (steps', e)"
proof (cases "SendDry env \<lparr>Items = map buildSendRequest steps,
    Concurrency = SizeEstimationConcurrency (policy fs)\<rparr>")
  case (Inl err)
  then show ?thesis by (simp add: updateSizeEstimates_def)
next
  case (Inr items)
  with assms have "length items \<le> length steps"
    unfolding SendDry_wellformed_def by fastforce
  from setExpectedSizes_total [OF this] obtain steps' where
    "setExpectedSizes steps items = Return steps'" by blast
  with Inr show ?thesis by (simp add: updateSizeEstimates_def)
qed

lemma doPlanning_resume:
  assumes "entered_with_token env fs tok raw sfsvs"
  shows "doPlanning env fs oneStep =
    (case resumeSteps env fs oneStep tok raw sfsvs of
       Inl err \<Rightarrow> Return (Inl err)
     | Inr steps \<Rightarrow>
         if length steps = 0 then Return (Inr steps)
         else (case updateSizeEstimates env fs steps of
                 Panic m \<Rightarrow> Panic m
               | Return (steps', err) \<Rightarrow> Return (Inr steps')))"
proof -
  from assms obtain rvs where l: "listBothVersions env fs = Inr (sfsvs, rvs)"
    and p: "\<not> IsPlaceholder (senderFS fs)" and n: "sfsvs \<noteq> []"
    and d: "decodeResumeToken env fs = Inr (Some tok, raw)"
    unfolding entered_with_token_def by blast
  from n have n': "\<not> length sfsvs < 1" by (cases sfsvs) auto
  show ?thesis
    unfolding doPlanning_def using p l n' d
    by (simp add: Let_def split: sum.splits)
qed

lemma resumeScan_to_None:
  "resumeScan tok idx xs (f, t, i) = (f', None, i') \<Longrightarrow>
    t = None \<and> (\<forall>v\<in>set xs. \<not> (HasToGUID tok \<and> Guid (snd v) = ToGUID tok \<and> is_snapshot v))"
  by (induction xs arbitrary: idx f t i) (auto simp: is_snapshot_def split: if_splits)

lemma resumeScan_to_None_conv:
  "\<forall>v\<in>set xs. \<not> (HasToGUID tok \<and> Guid (snd v) = ToGUID tok \<and> is_snapshot v) \<Longrightarrow>
    fst (snd (resumeScan tok idx xs (f, t, i))) = t"
  by (induction xs arbitrary: idx f t i) (auto simp: is_snapshot_def)

lemma resumeScan_to_Some:
  "resumeScan tok idx xs (f, t, i) = (f', Some tv, i') \<Longrightarrow>
    (t = Some tv \<and> i' = i)
    \<or> (HasToGUID tok \<and> Guid (snd tv) = ToGUID tok \<and> is_snapshot tv
        \<and> idx \<le> i' \<and> i' < idx + length xs \<and> xs ! (i' - idx) = tv)"
proof (induction xs arbitrary: idx f t i)
  case Nil
  then show ?case by simp
next
  case (Cons x xs)
  let ?c = "HasToGUID tok \<and> Guid (snd x) = ToGUID tok \<and> Type (snd x) = Snapshot"
  from Cons.prems obtain f0 where
    r: "resumeScan tok (Suc idx) xs (f0, if ?c then Some x else t, if ?c then idx else i)
        = (f', Some tv, i')"
    by simp
  from Cons.IH [OF r] show ?case
    by (auto simp: is_snapshot_def nth_Cons' split: if_splits)
qed

lemma resumeScan_from:
  "resumeScan tok idx xs (f, t, i) = (f', t', i') \<Longrightarrow>
    (case f' of
       None \<Rightarrow> f = None \<and> (HasFromGUID tok \<longrightarrow> (\<forall>v\<in>set xs. Guid (snd v) \<noteq> FromGUID tok))
     | Some fv \<Rightarrow> f = Some fv \<or> (HasFromGUID tok \<and> fv \<in> set xs \<and> Guid (snd fv) = FromGUID tok))"
proof (induction xs arbitrary: idx f t i)
  case Nil
  then show ?case by (simp split: option.splits)
next
  case (Cons x xs)
  let ?f = "if HasFromGUID tok \<and> Guid (snd x) = FromGUID tok then
         (case f of None \<Rightarrow> Some x
          | Some g \<Rightarrow> if Type (snd g) = Snapshot then f else Some x)
       else f"
  from Cons.prems obtain t0 i0 where
    r: "resumeScan tok (Suc idx) xs (?f, t0, i0) = (f', t', i')"
    by simp
  from Cons.IH [OF r] show ?case
    by (cases f'; cases f) (auto split: if_splits)
qed

lemma decodeResumeToken_raw:
  "decodeResumeToken env fs = Inr (Some tok, raw) \<Longrightarrow> raw \<noteq> ''''"
  by (auto simp: decodeResumeToken_def split: option.splits if_splits sum.splits)

lemma resumeScan_from_keep:
  "is_snapshot g \<Longrightarrow> fst (resumeScan tok idx xs (Some g, t, i)) = Some g"
  by (induction xs arbitrary: idx t i) (auto simp: is_snapshot_def)

lemma resumeScan_from_first_snapshot:
  assumes "HasFromGUID tok"
    and "filter (\<lambda>v. is_snapshot v \<and> Guid (snd v) = FromGUID tok) xs = sv # others"
    and "\<not> snapshot_elem f"
  shows "fst (resumeScan tok idx xs (f, t, i)) = Some sv"
  using assms
proof (induction xs arbitrary: idx f t i)
  case Nil
  then show ?case by simp
next
  case (Cons x xs)
  show ?case
  proof (cases "is_snapshot x \<and> Guid (snd x) = FromGUID tok")
    case True
    with Cons.prems have x: "x = sv" by simp
    let ?f = "if HasFromGUID tok \<and> Guid (snd x) = FromGUID tok then
         (case f of None \<Rightarrow> Some x
          | Some g \<Rightarrow> if Type (snd g) = Snapshot then f else Some x)
       else f"
    from Cons.prems(3) True Cons.prems(1) have fx: "?f = Some x"
      by (auto simp: snapshot_elem_def is_snapshot_def split: option.splits)
    obtain t0 i0 where
      "resumeScan tok idx (x # xs) (f, t, i) = resumeScan tok (Suc idx) xs (?f, t0, i0)"
      by simp
    then have "resumeScan tok idx (x # xs) (f, t, i) = resumeScan tok (Suc idx) xs (Some x, t0, i0)"
      by (simp only: fx)
    with True x show ?thesis
      by (simp only: resumeScan_from_keep)
  next
    case False
    with Cons.prems have fl: "filter (\<lambda>v. is_snapshot v \<and> Guid (snd v) = FromGUID tok) xs = sv # others"
      by auto
    let ?f = "if HasFromGUID tok \<and> Guid (snd x) = FromGUID tok then
         (case f of None \<Rightarrow> Some x
          | Some g \<Rightarrow> if Type (snd g) = Snapshot then f else Some x)
       else f"
    from False Cons.prems(3) have ns: "\<not> snapshot_elem ?f"
      by (auto simp: snapshot_elem_def is_snapshot_def split: option.splits)
    obtain t0 i0 where
      "resumeScan tok idx (x # xs) (f, t, i) = resumeScan tok (Suc idx) xs (?f, t0, i0)"
      by simp
    with Cons.IH [OF Cons.prems(1) fl ns] show ?thesis by simp
  qed
qed

lemma resumeScan_to_last:
  assumes "HasToGUID tok"
    and "filter (\<lambda>v. is_snapshot v \<and> Guid (snd v) = ToGUID tok) xs \<noteq> []"
  shows "fst (snd (resumeScan tok idx xs (f, t, i)))
    = Some (last (filter (\<lambda>v. is_snapshot v \<and> Guid (snd v) = ToGUID tok) xs))"
  using assms
proof (induction xs arbitrary: idx f t i)
  case Nil
  then show ?case by simp
next
  case (Cons x xs)
  let ?P = "\<lambda>v. is_snapshot v \<and> Guid (snd v) = ToGUID tok"
  show ?case
  proof (cases "filter ?P xs = []")
    case True
    with Cons.prems have px: "?P x" by (auto split: if_splits)
    from True have "\<forall>v\<in>set xs. \<not> (HasToGUID tok \<and> Guid (snd v) = ToGUID tok \<and> is_snapshot v)"
      by (auto simp: filter_empty_conv)
    from resumeScan_to_None_conv [OF this]
    have "\<And>f t i. fst (snd (resumeScan tok (Suc idx) xs (f, t, i))) = t" .
    with px True Cons.prems(1) show ?thesis by (simp add: is_snapshot_def)
  next
    case False
    from Cons.IH [OF Cons.prems(1) False]
    have "\<And>f t i. fst (snd (resumeScan tok (Suc idx) xs (f, t, i))) = Some (last (filter ?P xs))" .
    with False show ?thesis by simp
  qed
qed

lemma resumeSteps_shape:
  assumes scan: "resumeScan tok 0 (SortVersionListByCreateTXGThenBookmarkLTSnapshot env sfsvs)
        (None, None, 0) = (fromVersion, Some toVersion, idx)"
    and ne: "\<not> ptr_eq fromVersion (Some toVersion)"
  shows "resumeSteps env fs oneStep tok raw sfsvs =
      Inr (mkStep fs fromVersion (Some toVersion) raw #
        (let remainingSFSVs = filter is_snapshot
               (drop idx (SortVersionListByCreateTXGThenBookmarkLTSnapshot env sfsvs))
         in if oneStep \<and> 1 < length remainingSFSVs
            then [mkStep fs (Some toVersion) (Some (last remainingSFSVs)) '''']
            else map (\<lambda>i. mkStep fs (Some (remainingSFSVs ! i))
                                (Some (remainingSFSVs ! (i + 1))) '''')
                       [0..<length remainingSFSVs - 1]))"
    and "hd (filter is_snapshot (drop idx (SortVersionListByCreateTXGThenBookmarkLTSnapshot env sfsvs)))
      = toVersion"
proof -
  let ?s = "SortVersionListByCreateTXGThenBookmarkLTSnapshot env sfsvs"
  let ?rem = "filter is_snapshot (drop idx ?s)"
  from resumeScan_to_Some [OF scan]
  have t: "is_snapshot toVersion" "idx < length ?s" "?s ! idx = toVersion" by auto
  then have d: "drop idx ?s = toVersion # drop (Suc idx) ?s"
    by (simp add: Cons_nth_drop_Suc [symmetric])
  with t(1) have r: "?rem = toVersion # filter is_snapshot (drop (Suc idx) ?s)" by simp
  then show "hd ?rem = toVersion" by simp
  from r have r0: "?rem ! 0 = toVersion" by simp
  from r have rl: "?rem ! (length ?rem - 1) = last ?rem"
    by (metis last_conv_nth list.distinct(1))
  show "resumeSteps env fs oneStep tok raw sfsvs =
      Inr (mkStep fs fromVersion (Some toVersion) raw #
        (let remainingSFSVs = ?rem
         in if oneStep \<and> 1 < length remainingSFSVs
            then [mkStep fs (Some toVersion) (Some (last remainingSFSVs)) '''']
            else map (\<lambda>i. mkStep fs (Some (remainingSFSVs ! i))
                                (Some (remainingSFSVs ! (i + 1))) '''')
                       [0..<length remainingSFSVs - 1]))"
    unfolding resumeSteps_def Let_def using scan ne r0 rl by simp
qed

lemma entered_scenarios:
  "svs \<noteq> [] \<Longrightarrow> raw \<noteq> '''' \<Longrightarrow>
    entered_with_token (env_scenarios svs rvs tok) (with_receiver fs_data raw) tok raw svs"
  by (simp add: entered_with_token_def env_scenarios_def fs_data_def with_receiver_def
      listBothVersions_def needReceiverVersions_def decodeResumeToken_def)

lemma SendDry_wellformed_scenarios: "SendDry_wellformed (env_scenarios svs rvs tok)"
  by (simp add: SendDry_wellformed_def env_scenarios_def)

lemma Sort_scenarios:
  "SortVersionListByCreateTXGThenBookmarkLTSnapshot (env_scenarios svs rvs tok) = sort_versions"
  by (simp add: env_scenarios_def)


text \<open>
  C6.  A plan entered with a decoded resume token fails with an error, and so without
  steps, (a) when the token has no to-guid or no sender version is a snapshot with the
  token's to-guid (the sort keeping the versions), and (b) when the from-version and the
  to-version that the loop finds are the same version; (b) holds in particular when the
  token's from-guid and to-guid are equal and exactly one sender snapshot has that GUID.
\<close>

theorem resume_token_rejected:
  assumes "entered_with_token env fs tok raw sfsvs"
  shows "((\<not> HasToGUID tok \<or>
           (set (SortVersionListByCreateTXGThenBookmarkLTSnapshot env sfsvs) = set sfsvs
            \<and> (\<forall>v\<in>set sfsvs. \<not> (is_snapshot v \<and> Guid (snd v) = ToGUID tok)))) \<longrightarrow>
          doPlanning env fs oneStep
            = Return (Inl (ResumeToGuidNotFound (ToGUID tok) (ToName tok))))
     \<and> (\<forall>f t i. resumeScan tok 0 (SortVersionListByCreateTXGThenBookmarkLTSnapshot env sfsvs)
                  (None, None, 0) = (f, Some t, i) \<and> ptr_eq f (Some t) \<longrightarrow>
          doPlanning env fs oneStep = Return (Inl (Error
            ''resume token `fromguid` and `toguid` match same version on sener'')))
     \<and> (HasFromGUID tok \<and> HasToGUID tok \<and> FromGUID tok = ToGUID tok
        \<and> (\<exists>sv. filter (\<lambda>v. is_snapshot v \<and> Guid (snd v) = ToGUID tok)
                  (SortVersionListByCreateTXGThenBookmarkLTSnapshot env sfsvs) = [sv]) \<longrightarrow>
          doPlanning env fs oneStep = Return (Inl (Error
            ''resume token `fromguid` and `toguid` match same version on sener'')))"
proof -
  let ?s = "SortVersionListByCreateTXGThenBookmarkLTSnapshot env sfsvs"
  let ?scan = "resumeScan tok 0 ?s (None, None, 0)"
  let ?same = "Return (Inl (Error ''resume token `fromguid` and `toguid` match same version on sener''))"
  note dp = doPlanning_resume [OF assms, of oneStep]
  have same: "doPlanning env fs oneStep = ?same"
    if "?scan = (f, Some t, i)" "ptr_eq f (Some t)" for f t i
    using that by (simp add: dp resumeSteps_def)
  have a: "doPlanning env fs oneStep = Return (Inl (ResumeToGuidNotFound (ToGUID tok) (ToName tok)))"
    if "\<forall>v\<in>set ?s. \<not> (HasToGUID tok \<and> Guid (snd v) = ToGUID tok \<and> is_snapshot v)"
  proof -
    from resumeScan_to_None_conv [OF that, of 0 None None 0]
    have "fst (snd ?scan) = None" .
    then obtain f i where "?scan = (f, None, i)" by (cases ?scan) auto
    then show ?thesis by (simp add: dp resumeSteps_def)
  qed
  have c: "doPlanning env fs oneStep = ?same"
    if h: "HasFromGUID tok" "HasToGUID tok" "FromGUID tok = ToGUID tok"
      and sv: "filter (\<lambda>v. is_snapshot v \<and> Guid (snd v) = ToGUID tok) ?s = [sv]" for sv
  proof -
    from sv h(3) have svf: "filter (\<lambda>v. is_snapshot v \<and> Guid (snd v) = FromGUID tok) ?s = sv # []"
      by simp
    have "\<not> snapshot_elem None" by (simp add: snapshot_elem_def)
    from resumeScan_from_first_snapshot [OF h(1) svf this, of 0 None 0]
    have f: "fst ?scan = Some sv" .
    from sv have "filter (\<lambda>v. is_snapshot v \<and> Guid (snd v) = ToGUID tok) ?s \<noteq> []" by simp
    from resumeScan_to_last [OF h(2) this, of 0 None None 0] sv
    have t: "fst (snd ?scan) = Some sv" by simp
    from f t obtain i where "?scan = (Some sv, Some sv, i)" by (cases ?scan) auto
    moreover have "ptr_eq (Some sv) (Some sv)" by (simp add: ptr_eq_def)
    ultimately show ?thesis by (rule same)
  qed
  from a same c show ?thesis by blast
qed


theorem resume_token_rejected_witness:
  "entered_with_token (env_scenarios [snap_a, snap_c] [snap_a] token_a_b)
      (with_receiver fs_data ''1-tok'') token_a_b ''1-tok'' [snap_a, snap_c]
   \<and> doPlanning (env_scenarios [snap_a, snap_c] [snap_a] token_a_b)
        (with_receiver fs_data ''1-tok'') False
      = Return (Inl (ResumeToGuidNotFound 102 ''pool/data@b''))
   \<and> entered_with_token (env_scenarios [snap_a, book_b, snap_b, snap_c] [snap_a] token_b_b)
      (with_receiver fs_data ''1-tok'') token_b_b ''1-tok'' [snap_a, book_b, snap_b, snap_c]
   \<and> doPlanning (env_scenarios [snap_a, book_b, snap_b, snap_c] [snap_a] token_b_b)
        (with_receiver fs_data ''1-tok'') True
      = Return (Inl (Error ''resume token `fromguid` and `toguid` match same version on sener''))"
proof -
  let ?fs = "with_receiver fs_data ''1-tok''"
  let ?env1 = "env_scenarios [snap_a, snap_c] [snap_a] token_a_b"
  let ?svs = "[snap_a, book_b, snap_b, snap_c]"
  let ?env2 = "env_scenarios ?svs [snap_a] token_b_b"
  have e1: "entered_with_token ?env1 ?fs token_a_b ''1-tok'' [snap_a, snap_c]"
    by (rule entered_scenarios) simp_all
  have s1: "sort_versions [snap_a, snap_c] = [snap_a, snap_c]"
    by (simp add: sort_versions_def version_defs word_cmp)
  have n1: "\<forall>v\<in>set [snap_a, snap_c]. \<not> (is_snapshot v \<and> Guid (snd v) = ToGUID token_a_b)"
    by (simp add: version_defs token_a_b_def)
  from resume_token_rejected [OF e1, of False] s1 n1
  have r1: "doPlanning ?env1 ?fs False = Return (Inl (ResumeToGuidNotFound 102 ''pool/data@b''))"
    by (simp add: Sort_scenarios token_a_b_def)
  have e2: "entered_with_token ?env2 ?fs token_b_b ''1-tok'' ?svs"
    by (rule entered_scenarios) simp_all
  have s2: "sort_versions ?svs = ?svs"
    by (simp add: sort_versions_def version_defs word_cmp)
  have n2: "filter (\<lambda>v. is_snapshot v \<and> Guid (snd v) = ToGUID token_b_b) ?svs = [snap_b]"
    by (simp add: version_defs token_b_b_def is_snapshot_def)
  have h2: "HasFromGUID token_b_b" "HasToGUID token_b_b" "FromGUID token_b_b = ToGUID token_b_b"
    by (simp_all add: token_b_b_def)
  from resume_token_rejected [OF e2, of True] s2 n2 h2
  have r2: "doPlanning ?env2 ?fs True
      = Return (Inl (Error ''resume token `fromguid` and `toguid` match same version on sener''))"
    by (simp add: Sort_scenarios)
  from e1 r1 e2 r2 show ?thesis by (intro conjI)
qed

text \<open>
  C2, as the claim states it, fails where the token has a from-guid that no sender
  version carries (the sender has destroyed \<open>@a\<close>): the plan is derived, and its first
  step has no from-version at all.
\<close>

theorem resume_from_guid_not_on_sender:
  "doPlanning (env_scenarios [snap_b, snap_c] [snap_a] token_a_b)
      (with_receiver fs_data ''1-tok'') True
    = Return (Inr
        [(mkStep (with_receiver fs_data ''1-tok'') None (Some snap_b) ''1-tok'')
           \<lparr>expectedSize := 4096\<rparr>,
         (mkStep (with_receiver fs_data ''1-tok'') (Some snap_b) (Some snap_c) '''')
           \<lparr>expectedSize := 4096\<rparr>])
   \<and> HasFromGUID token_a_b
   \<and> GetGuid None \<noteq> FromGUID token_a_b"
proof -
  let ?env = "env_scenarios [snap_b, snap_c] [snap_a] token_a_b"
  let ?fs = "with_receiver fs_data ''1-tok''"
  have e: "entered_with_token ?env ?fs token_a_b ''1-tok'' [snap_b, snap_c]"
    by (rule entered_scenarios) simp_all
  have s: "sort_versions [snap_b, snap_c] = [snap_b, snap_c]"
    by (simp add: sort_versions_def version_defs word_cmp)
  have sc: "resumeScan token_a_b 0 [snap_b, snap_c] (None, None, 0) = (None, Some snap_b, 0)"
    by (simp add: version_defs token_a_b_def)
  have rs: "resumeSteps ?env ?fs True token_a_b ''1-tok'' [snap_b, snap_c]
      = Inr [mkStep ?fs None (Some snap_b) ''1-tok'', mkStep ?fs (Some snap_b) (Some snap_c) '''']"
  proof -
    have rem: "is_snapshot snap_b" "is_snapshot snap_c"
      by (simp_all add: is_snapshot_def version_defs)
    show ?thesis
      unfolding resumeSteps_def Let_def Sort_scenarios s sc
      by (simp add: ptr_eq_def Let_def rem)
  qed
  have u: "updateSizeEstimates ?env ?fs
        [mkStep ?fs None (Some snap_b) ''1-tok'', mkStep ?fs (Some snap_b) (Some snap_c) '''']
      = Return ([(mkStep ?fs None (Some snap_b) ''1-tok'')\<lparr>expectedSize := 4096\<rparr>,
                 (mkStep ?fs (Some snap_b) (Some snap_c) '''')\<lparr>expectedSize := 4096\<rparr>], None)"
    by (simp add: updateSizeEstimates_def env_scenarios_def)
  have "doPlanning ?env ?fs True = Return (Inr
        [(mkStep ?fs None (Some snap_b) ''1-tok'')\<lparr>expectedSize := 4096\<rparr>,
         (mkStep ?fs (Some snap_b) (Some snap_c) '''')\<lparr>expectedSize := 4096\<rparr>])"
    by (simp add: doPlanning_resume [OF e] rs u)
  then show ?thesis by (simp add: token_a_b_def GetGuid_def)
qed

text \<open>
  C2, amended.  For a decoded resume token whose to-version is found on the sender and
  is not the version found for its from-guid, with \<open>SendDry\<close> answering with no more
  items than steps: planning returns a non-empty plan whose first step carries the raw
  token and goes to the snapshot with the token's to-guid; that step's from-version,
  when it has one, has the token's from-guid, and it has none only when the token has no
  from-guid or no sender version carries it.  When one_step is set and more than one
  sender snapshot remains at or after the to-version, the plan is exactly that step
  followed by one step from the to-version, which is the first remaining snapshot, to
  the last remaining snapshot.
\<close>

theorem resume_plan_shape:
  assumes entered: "entered_with_token env fs tok raw sfsvs"
    and scan: "resumeScan tok 0 (SortVersionListByCreateTXGThenBookmarkLTSnapshot env sfsvs)
        (None, None, 0) = (fromVersion, Some toVersion, idx)"
    and ne: "\<not> ptr_eq fromVersion (Some toVersion)"
    and dry: "SendDry_wellformed env"
  shows "\<exists>steps. doPlanning env fs oneStep = Return (Inr steps) \<and> steps \<noteq> []
     \<and> step_core (hd steps) = (fromVersion, Some toVersion, raw) \<and> raw \<noteq> ''''
     \<and> GetGuid (to_version (hd steps)) = ToGUID tok
     \<and> is_snapshot toVersion
     \<and> toVersion \<in> set (SortVersionListByCreateTXGThenBookmarkLTSnapshot env sfsvs)
     \<and> (case from_version (hd steps) of
           None \<Rightarrow> HasFromGUID tok \<longrightarrow>
             (\<forall>v\<in>set (SortVersionListByCreateTXGThenBookmarkLTSnapshot env sfsvs).
                Guid (snd v) \<noteq> FromGUID tok)
         | Some f \<Rightarrow> HasFromGUID tok \<and> Guid (snd f) = FromGUID tok
             \<and> f \<in> set (SortVersionListByCreateTXGThenBookmarkLTSnapshot env sfsvs))
     \<and> hd (filter is_snapshot
           (drop idx (SortVersionListByCreateTXGThenBookmarkLTSnapshot env sfsvs))) = toVersion
     \<and> (oneStep \<and> 1 < length (filter is_snapshot
           (drop idx (SortVersionListByCreateTXGThenBookmarkLTSnapshot env sfsvs))) \<longrightarrow>
         map step_core steps =
           [(fromVersion, Some toVersion, raw),
            (Some toVersion,
             Some (last (filter is_snapshot
               (drop idx (SortVersionListByCreateTXGThenBookmarkLTSnapshot env sfsvs)))), '''')])"
proof -
  let ?s = "SortVersionListByCreateTXGThenBookmarkLTSnapshot env sfsvs"
  let ?rem = "filter is_snapshot (drop idx ?s)"
  let ?rest = "if oneStep \<and> 1 < length ?rem
            then [mkStep fs (Some toVersion) (Some (last ?rem)) '''']
            else map (\<lambda>i. mkStep fs (Some (?rem ! i)) (Some (?rem ! (i + 1))) '''')
                       [0..<length ?rem - 1]"
  let ?pre = "mkStep fs fromVersion (Some toVersion) raw # ?rest"
  from resumeSteps_shape(1) [OF scan ne, of fs oneStep raw]
  have rs: "resumeSteps env fs oneStep tok raw sfsvs = Inr ?pre"
    by (simp add: Let_def)
  from resumeSteps_shape(2) [OF scan ne] have hd: "hd ?rem = toVersion" .
  from updateSizeEstimates_total [OF dry, of fs ?pre] obtain steps e where
    u: "updateSizeEstimates env fs ?pre = Return (steps, e)" by blast
  from updateSizeEstimates_core [OF u] have core: "map step_core steps = map step_core ?pre" .
  then have len: "length steps = length ?pre" by (rule map_eq_imp_length_eq)
  then have sne: "steps \<noteq> []" by auto
  from doPlanning_resume [OF entered, of oneStep] rs u
  have dp: "doPlanning env fs oneStep = Return (Inr steps)" by simp
  from core sne have h: "step_core (hd steps) = (fromVersion, Some toVersion, raw)"
    by (cases steps) (auto simp: step_core_def mkStep_def)
  then have hf: "from_version (hd steps) = fromVersion" and ht: "to_version (hd steps) = Some toVersion"
    by (simp_all add: step_core_def)
  from entered have raw: "raw \<noteq> ''''"
    unfolding entered_with_token_def by (auto dest: decodeResumeToken_raw)
  from resumeScan_to_Some [OF scan]
  have t: "Guid (snd toVersion) = ToGUID tok" "is_snapshot toVersion" "idx < length ?s"
    "?s ! idx = toVersion" by auto
  then have tin: "toVersion \<in> set ?s" by (metis nth_mem)
  from resumeScan_from [OF scan]
  have fr: "case fromVersion of
       None \<Rightarrow> HasFromGUID tok \<longrightarrow> (\<forall>v\<in>set ?s. Guid (snd v) \<noteq> FromGUID tok)
     | Some f \<Rightarrow> HasFromGUID tok \<and> Guid (snd f) = FromGUID tok \<and> f \<in> set ?s"
    by (cases fromVersion) auto
  have one: "map step_core steps =
      [(fromVersion, Some toVersion, raw), (Some toVersion, Some (last ?rem), '''')]"
    if "oneStep \<and> 1 < length ?rem"
    using that core by (simp add: step_core_def mkStep_def)
  from dp sne h raw t(1,2) tin fr hd one show ?thesis
    by (auto simp: hf ht GetGuid_def)
qed


theorem resume_plan_shape_witness:
  "entered_with_token (env_scenarios [snap_a, book_b, snap_b, snap_c] [snap_a] token_a_b)
      (with_receiver fs_data ''1-tok'') token_a_b ''1-tok'' [snap_a, book_b, snap_b, snap_c]
   \<and> resumeScan token_a_b 0 (sort_versions [snap_a, book_b, snap_b, snap_c]) (None, None, 0)
      = (Some snap_a, Some snap_b, 2)
   \<and> \<not> ptr_eq (Some snap_a) (Some snap_b)
   \<and> SendDry_wellformed (env_scenarios [snap_a, book_b, snap_b, snap_c] [snap_a] token_a_b)
   \<and> (\<exists>steps. doPlanning (env_scenarios [snap_a, book_b, snap_b, snap_c] [snap_a] token_a_b)
         (with_receiver fs_data ''1-tok'') True = Return (Inr steps)
       \<and> map step_core steps
          = [(Some snap_a, Some snap_b, ''1-tok''), (Some snap_b, Some snap_c, '''')])"
proof -
  let ?svs = "[snap_a, book_b, snap_b, snap_c]"
  let ?env = "env_scenarios ?svs [snap_a] token_a_b"
  let ?fs = "with_receiver fs_data ''1-tok''"
  have e: "entered_with_token ?env ?fs token_a_b ''1-tok'' ?svs"
    by (rule entered_scenarios) simp_all
  have s: "sort_versions ?svs = ?svs"
    by (simp add: sort_versions_def version_defs word_cmp)
  have sc: "resumeScan token_a_b 0 ?svs (None, None, 0) = (Some snap_a, Some snap_b, 2)"
    by (simp add: version_defs token_a_b_def)
  have ne: "\<not> ptr_eq (Some snap_a) (Some snap_b)" by (simp add: ptr_eq_def version_defs)
  have w: "SendDry_wellformed ?env" by (rule SendDry_wellformed_scenarios)
  have sc': "resumeScan token_a_b 0 (SortVersionListByCreateTXGThenBookmarkLTSnapshot ?env ?svs)
      (None, None, 0) = (Some snap_a, Some snap_b, 2)"
    by (simp only: Sort_scenarios s sc)
  let ?rem = "filter is_snapshot
      (drop 2 (SortVersionListByCreateTXGThenBookmarkLTSnapshot ?env ?svs))"
  have "?rem = filter is_snapshot (drop 2 ?svs)"
    by (simp only: Sort_scenarios s)
  also have "\<dots> = [snap_b, snap_c]"
    by (simp add: is_snapshot_def version_defs)
  finally have rem: "?rem = [snap_b, snap_c]" .
  from resume_plan_shape [OF e sc' ne w, of True] obtain steps where
    dp: "doPlanning ?env ?fs True = Return (Inr steps)" and
    imp: "True \<and> 1 < length ?rem \<longrightarrow> map step_core steps =
       [(Some snap_a, Some snap_b, ''1-tok''), (Some snap_b, Some (last ?rem), '''')]"
    by (elim exE conjE) (rule that, assumption+)
  from imp have m: "map step_core steps
      = [(Some snap_a, Some snap_b, ''1-tok''), (Some snap_b, Some snap_c, '''')]"
    unfolding rem by simp
  from dp m have ex: "\<exists>steps. doPlanning ?env ?fs True = Return (Inr steps)
       \<and> map step_core steps
          = [(Some snap_a, Some snap_b, ''1-tok''), (Some snap_b, Some snap_c, '''')]"
    by (intro exI [of _ steps] conjI)
  have sc2: "resumeScan token_a_b 0 (sort_versions ?svs) (None, None, 0)
      = (Some snap_a, Some snap_b, 2)"
    by (simp only: s sc)
  from e sc2 ne w ex show ?thesis by (intro conjI)
qed

lemma pathLoop_nonempty: "2 \<le> length path \<Longrightarrow> pathLoop fs oneStep path \<noteq> []"
  by (cases "(fs, oneStep, path)" rule: pathLoop.cases) auto

lemma pathLoop_token: "s \<in> set (pathLoop fs oneStep path) \<Longrightarrow> resumeToken s = ''''"
  by (induction fs oneStep path rule: pathLoop.induct) (auto simp: mkStep_def split: if_splits)

lemma pathLoop_snapshot_head:
  "snapshot_elem a \<Longrightarrow> pathLoop fs True (a # b # rest) = [mkStep fs a (last (b # rest)) '''']"
  by (cases a) (simp_all add: snapshot_elem_def is_snapshot_def)

lemma pathLoop_other_head:
  "\<not> snapshot_elem a \<Longrightarrow>
    pathLoop fs True (a # b # rest) = mkStep fs a b '''' # pathLoop fs True (b # rest)"
  by (cases a) (simp_all add: snapshot_elem_def is_snapshot_def)

lemma pathLoop_single: "pathLoop fs oneStep [b] = []"
  by simp

lemma pathLoop_one_step:
  assumes "length path \<le> 2 \<or> list_all snapshot_elem (tl path)"
  shows "length (pathLoop fs True path) \<le> 2
    \<and> (length (pathLoop fs True path) = 2 \<longrightarrow>
          \<not> snapshot_elem (from_version (pathLoop fs True path ! 0))
          \<and> from_version (pathLoop fs True path ! 1) = to_version (pathLoop fs True path ! 0))"
proof (cases "(fs, True, path)" rule: pathLoop.cases)
  case (1 fs' oneStep' a b rest)
  then have p: "path = a # b # rest" by simp
  show ?thesis
  proof (cases "snapshot_elem a")
    case True
    then show ?thesis unfolding p by (simp add: pathLoop_snapshot_head del: pathLoop.simps)
  next
    case False
    note na = this
    show ?thesis
    proof (cases rest)
      case Nil
      with na show ?thesis unfolding p by (simp add: pathLoop_other_head pathLoop_single del: pathLoop.simps)
    next
      case (Cons c rest')
      with assms p have "snapshot_elem b" by simp
      with na Cons show ?thesis unfolding p
        by (simp add: pathLoop_other_head pathLoop_snapshot_head pathLoop_single mkStep_def del: pathLoop.simps)
    qed
  qed
qed simp_all

lemma tryAutoresolveConflict_path:
  assumes "tryAutoresolveConflict c p = Return (path, None)"
  shows "length path \<le> 2 \<or> list_all snapshot_elem (tl path)"
  using assms
  by (auto simp: tryAutoresolveConflict_def snapshot_elem_def list_all_iff
      split: option.splits prod.splits if_splits InitialReplicationAutoResolution.splits)

lemma resolvedPath_path:
  assumes "resolvedPath env fs rfsvs sfsvs = Return (path, None)"
    and "IncrementalPath_wellformed env"
  shows "length path \<le> 2 \<or> list_all snapshot_elem (tl path)"
proof (cases "IncrementalPath env rfsvs sfsvs")
  case (Pair path0 conflict0)
  show ?thesis
  proof (cases conflict0)
    case None
    with Pair assms(1) have "IncrementalPath env rfsvs sfsvs = (path, None)"
      by (simp add: resolvedPath_def)
    with assms(2) show ?thesis unfolding IncrementalPath_wellformed_def by blast
  next
    case (Some c)
    with Pair assms(1) have "tryAutoresolveConflict c (ConflictResolution (policy fs)) = Return (path, None)"
      by (simp add: resolvedPath_def)
    then show ?thesis by (rule tryAutoresolveConflict_path)
  qed
qed

lemma step_core_nth:
  assumes "map step_core steps = map step_core pre" and "i < length pre"
  shows "from_version (steps ! i) = from_version (pre ! i)"
    and "to_version (steps ! i) = to_version (pre ! i)"
    and "resumeToken (steps ! i) = resumeToken (pre ! i)"
proof -
  from assms(1) have l: "length steps = length pre" by (rule map_eq_imp_length_eq)
  from assms have "map step_core steps ! i = map step_core pre ! i" by simp
  with l assms(2) have "step_core (steps ! i) = step_core (pre ! i)" by simp
  then show "from_version (steps ! i) = from_version (pre ! i)"
    and "to_version (steps ! i) = to_version (pre ! i)"
    and "resumeToken (steps ! i) = resumeToken (pre ! i)"
    by (simp_all add: step_core_def)
qed

lemma resumeSteps_one_step:
  assumes "resumeSteps env fs True tok raw sfsvs = Inr pre"
  shows "length pre \<le> 2 \<and> pre \<noteq> [] \<and> resumeToken (pre ! 0) = raw
    \<and> (length pre = 2 \<longrightarrow> resumeToken (pre ! 1) = ''''
          \<and> from_version (pre ! 1) = to_version (pre ! 0))"
proof -
  let ?s = "SortVersionListByCreateTXGThenBookmarkLTSnapshot env sfsvs"
  obtain f t i where sc: "resumeScan tok 0 ?s (None, None, 0) = (f, t, i)"
    by (cases "resumeScan tok 0 ?s (None, None, 0)") auto
  from assms sc obtain tv where t: "t = Some tv"
    by (cases t) (auto simp: resumeSteps_def)
  from assms sc t have ne: "\<not> ptr_eq f (Some tv)"
    by (auto simp: resumeSteps_def split: if_splits)
  let ?rem = "filter is_snapshot (drop i ?s)"
  from resumeSteps_shape(1) [OF sc [unfolded t] ne, of fs True raw] assms
  have pre: "pre = mkStep fs f (Some tv) raw #
      (if 1 < length ?rem then [mkStep fs (Some tv) (Some (last ?rem)) '''']
       else map (\<lambda>i. mkStep fs (Some (?rem ! i)) (Some (?rem ! (i + 1))) '''')
              [0..<length ?rem - 1])"
    by (simp add: Let_def)
  show ?thesis
  proof (cases "1 < length ?rem")
    case True
    with pre show ?thesis by (simp add: mkStep_def)
  next
    case False
    then have "[0..<length ?rem - 1] = []" by simp
    with pre False show ?thesis by (simp add: mkStep_def)
  qed
qed

lemma pathPlanning_one_step:
  assumes "pathPlanning env fs True rfsvs sfsvs = Return (Inr pre)"
    and wf: "IncrementalPath_wellformed env"
  shows "length pre \<le> 2 \<and> (\<forall>s\<in>set pre. resumeToken s = '''')
    \<and> (length pre = 2 \<longrightarrow> \<not> snapshot_elem (from_version (pre ! 0))
          \<and> from_version (pre ! 1) = to_version (pre ! 0))"
proof (cases "resolvedPath env fs rfsvs sfsvs")
  case (Panic m)
  with assms(1) show ?thesis by (simp add: pathPlanning_def)
next
  case (Return r)
  obtain path conflict where r: "r = (path, conflict)" by (cases r) auto
  with Return assms(1) have c: "conflict = None"
    by (cases conflict) (auto simp: pathPlanning_def)
  with Return r have rp: "resolvedPath env fs rfsvs sfsvs = Return (path, None)" by simp
  from assms(1) rp have "pre = [] \<or> pre = pathLoop fs True path"
    by (auto simp: pathPlanning_def split: if_splits)
  then show ?thesis
  proof
    assume "pre = []"
    then show ?thesis by simp
  next
    assume p: "pre = pathLoop fs True path"
    from resolvedPath_path [OF rp wf] have "length path \<le> 2 \<or> list_all snapshot_elem (tl path)" .
    from pathLoop_one_step [OF this, of fs] p pathLoop_token [of _ fs True path]
    show ?thesis by auto
  qed
qed

lemma doPlanning_steps_cases:
  assumes "doPlanning env fs oneStep = Return (Inr steps)"
  shows "steps = []
    \<or> (\<exists>pre. map step_core steps = map step_core pre
          \<and> ((\<exists>tok raw sfsvs. raw \<noteq> '''' \<and> resumeSteps env fs oneStep tok raw sfsvs = Inr pre)
             \<or> (\<exists>rfsvs sfsvs. pathPlanning env fs oneStep rfsvs sfsvs = Return (Inr pre))))"
proof (cases "IsPlaceholder (senderFS fs)")
  case True
  with assms show ?thesis
    by (auto simp: doPlanning_def split: option.splits if_splits)
next
  case False
  from assms False obtain sfsvs rvs where l: "listBothVersions env fs = Inr (sfsvs, rvs)"
    by (cases "listBothVersions env fs") (auto simp: doPlanning_def)
  from assms False l have n: "\<not> length sfsvs < 1"
    by (auto simp: doPlanning_def split: if_splits)
  from assms False l n obtain tokopt raw where d: "decodeResumeToken env fs = Inr (tokopt, raw)"
    by (cases "decodeResumeToken env fs") (auto simp: doPlanning_def Let_def)
  let ?rfsvs = "if needReceiverVersions fs then rvs else []"
  let ?inner = "case tokopt of
      Some tok \<Rightarrow> Return (resumeSteps env fs oneStep tok raw sfsvs)
    | None \<Rightarrow> pathPlanning env fs oneStep ?rfsvs sfsvs"
  from assms False l n d have dp: "Return (Inr steps) =
      (case ?inner of
         Panic m \<Rightarrow> Panic m
       | Return (Inl err) \<Rightarrow> Return (Inl err)
       | Return (Inr pre) \<Rightarrow>
           if length pre = 0 then Return (Inr pre)
           else (case updateSizeEstimates env fs pre of
                   Panic m \<Rightarrow> Panic m
                 | Return (steps', err) \<Rightarrow> Return (Inr steps')))"
    by (simp add: doPlanning_def Let_def)
  then obtain pre where i: "?inner = Return (Inr pre)"
    by (cases ?inner) (auto split: sum.splits)
  show ?thesis
  proof (cases "pre = []")
    case True
    with dp i show ?thesis by simp
  next
    case pne: False
    with dp i obtain e where u: "updateSizeEstimates env fs pre = Return (steps, e)"
      by (cases "updateSizeEstimates env fs pre") auto
    from updateSizeEstimates_core [OF u] have core: "map step_core steps = map step_core pre" .
    show ?thesis
    proof (cases tokopt)
      case None
      with i have "pathPlanning env fs oneStep ?rfsvs sfsvs = Return (Inr pre)" by simp
      with core show ?thesis by blast
    next
      case (Some tok)
      with i have r: "resumeSteps env fs oneStep tok raw sfsvs = Inr pre" by simp
      from d Some have "raw \<noteq> ''''" by (auto dest: decodeResumeToken_raw)
      with r core show ?thesis by blast
    qed
  qed
qed


lemma doPlanning_path:
  assumes "\<not> IsPlaceholder (senderFS fs)"
    and "listBothVersions env fs = Inr (sfsvs, rvs)"
    and "sfsvs \<noteq> []"
    and "decodeResumeToken env fs = Inr (None, raw)"
    and "pathPlanning env fs oneStep (if needReceiverVersions fs then rvs else []) sfsvs
          = Return (Inr pre)"
    and "pre \<noteq> []"
    and "updateSizeEstimates env fs pre = Return (steps, e)"
  shows "doPlanning env fs oneStep = Return (Inr steps)"
proof -
  from assms(3) have n: "\<not> length sfsvs < 1" by (cases sfsvs) auto
  show ?thesis
    unfolding doPlanning_def using assms(1,2,4,5,6,7) n by (simp add: Let_def)
qed

lemma IncrementalPath_wellformed_scenarios:
  "IncrementalPath_wellformed (env_scenarios svs rvs tok)"
  by (auto simp: IncrementalPath_wellformed_def env_scenarios_def IncrementalPath_scenarios_def
      Let_def list_all_iff snapshot_elem_def split: if_splits)


text \<open>
  C1, as the claim states it, fails for an initial replication of three snapshots under
  the policy All with one_step set: the plan has two steps, the full send of \<open>@a\<close> and
  the collapsed step from \<open>@a\<close> to \<open>@c\<close>, and no resume step.
\<close>

theorem one_step_full_send_two_steps:
  "doPlanning (env_scenarios [snap_a, snap_b, snap_c] [] token_a_b) fs_data True
    = Return (Inr
        [(mkStep fs_data None (Some snap_a) '''')\<lparr>expectedSize := 4096\<rparr>,
         (mkStep fs_data (Some snap_a) (Some snap_c) '''')\<lparr>expectedSize := 4096\<rparr>])
   \<and> resumeToken ((mkStep fs_data None (Some snap_a) '''')\<lparr>expectedSize := 4096\<rparr>) = ''''"
proof -
  let ?svs = "[snap_a, snap_b, snap_c]"
  let ?env = "env_scenarios ?svs [] token_a_b"
  let ?pre = "[mkStep fs_data None (Some snap_a) '''', mkStep fs_data (Some snap_a) (Some snap_c) '''']"
  have p: "\<not> IsPlaceholder (senderFS fs_data)" by (simp add: fs_data_def)
  have nr: "\<not> needReceiverVersions fs_data" by (simp add: needReceiverVersions_def fs_data_def)
  then have l: "listBothVersions ?env fs_data = Inr (?svs, [])"
    by (simp add: listBothVersions_def env_scenarios_def)
  have d: "decodeResumeToken ?env fs_data = Inr (None, '''')"
    by (simp add: decodeResumeToken_def fs_data_def)
  have s: "sort_versions ?svs = ?svs" "sort_versions [] = []"
    by (simp_all add: sort_versions_def version_defs word_cmp)
  have ip: "IncrementalPath ?env [] ?svs = ([], Some (ConflictNoCommonAncestor ?svs []))"
    unfolding env_scenarios_def IncrementalPath_scenarios_def Let_def
    by (simp add: s on_receiver_def)
  have pol: "ConflictResolution (policy fs_data) = policy_of InitialReplicationAutoResolutionAll"
    by (simp add: fs_data_def)
  have sn: "is_snapshot snap_a" "is_snapshot snap_b" "is_snapshot snap_c"
    by (simp_all add: is_snapshot_def version_defs)
  have rp: "resolvedPath ?env fs_data [] ?svs = Return ([None, Some snap_a, Some snap_b, Some snap_c], None)"
    unfolding resolvedPath_def ip pol by (simp add: tryAutoresolveConflict_def policy_of_def sn)
  have ta: "Type (snd snap_a) = Snapshot" by (simp add: version_defs)
  have pl: "pathLoop fs_data True [None, Some snap_a, Some snap_b, Some snap_c] = ?pre"
    by (simp add: ta)
  have pp: "pathPlanning ?env fs_data True (if needReceiverVersions fs_data then [] else []) ?svs
      = Return (Inr ?pre)"
    unfolding pathPlanning_def using rp pl by simp
  have u: "updateSizeEstimates ?env fs_data ?pre
      = Return ([(mkStep fs_data None (Some snap_a) '''')\<lparr>expectedSize := 4096\<rparr>,
                 (mkStep fs_data (Some snap_a) (Some snap_c) '''')\<lparr>expectedSize := 4096\<rparr>], None)"
    by (simp add: updateSizeEstimates_def env_scenarios_def)
  have ne: "?pre \<noteq> []" by simp
  have ss: "?svs \<noteq> []" by simp
  from doPlanning_path [OF p l ss d pp ne u]
  have "doPlanning ?env fs_data True = Return (Inr
        [(mkStep fs_data None (Some snap_a) '''')\<lparr>expectedSize := 4096\<rparr>,
         (mkStep fs_data (Some snap_a) (Some snap_c) '''')\<lparr>expectedSize := 4096\<rparr>])" .
  moreover have "resumeToken ((mkStep fs_data None (Some snap_a) '''')\<lparr>expectedSize := 4096\<rparr>) = ''''"
    by (simp add: mkStep_def)
  ultimately show ?thesis by (intro conjI)
qed


lemma pathLoop_one_step_plan:
  assumes "length path \<le> 2 \<or> list_all snapshot_elem (tl path)"
  shows "map step_core (pathLoop fs True path) = one_step_plan_of_path path"
proof (cases "(fs, True, path)" rule: pathLoop.cases)
  case (1 fs' oneStep' a b rest)
  then have p: "path = a # b # rest" by simp
  show ?thesis
  proof (cases "snapshot_elem a")
    case True
    then show ?thesis unfolding p
      by (simp add: pathLoop_snapshot_head one_step_plan_of_path_def step_core_def mkStep_def
          del: pathLoop.simps)
  next
    case False
    note na = this
    show ?thesis
    proof (cases rest)
      case Nil
      with na show ?thesis unfolding p
        by (simp add: pathLoop_other_head pathLoop_single one_step_plan_of_path_def
            step_core_def mkStep_def del: pathLoop.simps)
    next
      case (Cons c rest')
      with assms p have "snapshot_elem b" by simp
      with na Cons show ?thesis unfolding p
        by (simp add: pathLoop_other_head pathLoop_snapshot_head one_step_plan_of_path_def
            step_core_def mkStep_def del: pathLoop.simps)
    qed
  qed
qed (simp_all add: one_step_plan_of_path_def)

lemma one_step_plan_of_path_length:
  "length (one_step_plan_of_path path) = 2 \<longleftrightarrow> 2 < length path \<and> \<not> snapshot_elem (path ! 0)"
  by (auto simp: one_step_plan_of_path_def)

lemma doPlanning_path_plan:
  assumes dp: "doPlanning env fs True = Return (Inr steps)"
    and np: "\<not> IsPlaceholder (senderFS fs)"
    and l: "listBothVersions env fs = Inr (sfsvs, rvs)"
    and d: "decodeResumeToken env fs = Inr (None, raw)"
    and rp: "resolvedPath env fs (if needReceiverVersions fs then rvs else []) sfsvs
        = Return (path, None)"
    and wf: "IncrementalPath_wellformed env"
  shows "map step_core steps = one_step_plan_of_path path"
proof -
  let ?r = "if needReceiverVersions fs then rvs else []"
  from dp np l have n: "\<not> length sfsvs < 1"
    by (auto simp: doPlanning_def split: if_splits)
  from dp np l n d have eq: "Return (Inr steps) =
      (case pathPlanning env fs True ?r sfsvs of
         Panic m \<Rightarrow> Panic m
       | Return (Inl err) \<Rightarrow> Return (Inl err)
       | Return (Inr pre) \<Rightarrow>
           if length pre = 0 then Return (Inr pre)
           else (case updateSizeEstimates env fs pre of
                   Panic m \<Rightarrow> Panic m
                 | Return (steps', err) \<Rightarrow> Return (Inr steps')))"
    by (simp add: doPlanning_def Let_def)
  from resolvedPath_path [OF rp wf]
  have tl: "length path \<le> 2 \<or> list_all snapshot_elem (tl path)" .
  show ?thesis
  proof (cases "length path = 0")
    case True
    with rp have "pathPlanning env fs True ?r sfsvs = Return (Inr [])"
      by (simp add: pathPlanning_def)
    with eq True show ?thesis by (simp add: one_step_plan_of_path_def)
  next
    case ne0: False
    show ?thesis
    proof (cases "length path = 1")
      case True
      from ne0 have pne: "path \<noteq> []" by simp
      from True have l1: "length path = Suc 0" by simp
      have "pathPlanning env fs True ?r sfsvs = Panic
          ''len(path) must be two for incremental repl, and initial repl must start with nil''"
        unfolding pathPlanning_def rp by (simp add: pne l1)
      then have "\<exists>m. pathPlanning env fs True ?r sfsvs = Panic m" by blast
      with eq show ?thesis by auto
    next
      case n1: False
      with ne0 rp have pp: "pathPlanning env fs True ?r sfsvs
          = Return (Inr (pathLoop fs True path))"
        by (simp add: pathPlanning_def)
      from ne0 n1 have "2 \<le> length path" by arith
      from pathLoop_nonempty [OF this, of fs True] have ne: "length (pathLoop fs True path) \<noteq> 0"
        by simp
      from eq pp ne obtain e where
        u: "updateSizeEstimates env fs (pathLoop fs True path) = Return (steps, e)"
        by (cases "updateSizeEstimates env fs (pathLoop fs True path)") auto
      from updateSizeEstimates_core [OF u] pathLoop_one_step_plan [OF tl, of fs]
      show ?thesis by simp
    qed
  qed
qed

lemma doPlanning_resume_plan:
  assumes dp: "doPlanning env fs True = Return (Inr steps)"
    and entered: "entered_with_token env fs tok raw sfsvs"
    and scan: "resumeScan tok 0 (SortVersionListByCreateTXGThenBookmarkLTSnapshot env sfsvs)
        (None, None, 0) = (f, Some tv, idx)"
  shows "map step_core steps =
    (f, Some tv, raw) #
    (if 1 < length (filter is_snapshot
            (drop idx (SortVersionListByCreateTXGThenBookmarkLTSnapshot env sfsvs)))
     then [(Some tv, Some (last (filter is_snapshot
            (drop idx (SortVersionListByCreateTXGThenBookmarkLTSnapshot env sfsvs)))), '''')]
     else [])"
proof -
  let ?s = "SortVersionListByCreateTXGThenBookmarkLTSnapshot env sfsvs"
  let ?rem = "filter is_snapshot (drop idx ?s)"
  note eq = doPlanning_resume [OF entered, of True]
  have ne: "\<not> ptr_eq f (Some tv)"
  proof
    assume "ptr_eq f (Some tv)"
    with scan have "\<exists>e. resumeSteps env fs True tok raw sfsvs = Inl e"
      by (simp add: resumeSteps_def)
    with eq dp show False by auto
  qed
  let ?pre = "mkStep fs f (Some tv) raw #
      (if 1 < length ?rem then [mkStep fs (Some tv) (Some (last ?rem)) '''']
       else map (\<lambda>i. mkStep fs (Some (?rem ! i)) (Some (?rem ! (i + 1))) '''')
              [0..<length ?rem - 1])"
  from resumeSteps_shape(1) [OF scan ne, of fs True raw]
  have rs: "resumeSteps env fs True tok raw sfsvs = Inr ?pre" by (simp add: Let_def)
  from eq dp rs obtain e where u: "updateSizeEstimates env fs ?pre = Return (steps, e)"
    by (cases "updateSizeEstimates env fs ?pre") auto
  have "map step_core ?pre = (f, Some tv, raw) #
      (if 1 < length ?rem then [(Some tv, Some (last ?rem), '''')] else [])"
  proof (cases "1 < length ?rem")
    case True
    then show ?thesis by (simp add: step_core_def mkStep_def)
  next
    case False
    then have "[0..<length ?rem - 1] = []" by simp
    with False show ?thesis by (simp add: step_core_def mkStep_def)
  qed
  with updateSizeEstimates_core [OF u] show ?thesis by simp
qed

lemma doPlanning_plan_cases:
  assumes dp: "doPlanning env fs oneStep = Return (Inr steps)"
  shows "(IsPlaceholder (senderFS fs) \<and> steps = [])
    \<or> (\<not> IsPlaceholder (senderFS fs)
        \<and> (\<exists>sfsvs rvs raw path. listBothVersions env fs = Inr (sfsvs, rvs)
              \<and> decodeResumeToken env fs = Inr (None, raw)
              \<and> resolvedPath env fs (if needReceiverVersions fs then rvs else []) sfsvs
                  = Return (path, None)))
    \<or> (\<exists>tok raw sfsvs f tv idx. entered_with_token env fs tok raw sfsvs
          \<and> resumeScan tok 0 (SortVersionListByCreateTXGThenBookmarkLTSnapshot env sfsvs)
                (None, None, 0) = (f, Some tv, idx))"
proof (cases "IsPlaceholder (senderFS fs)")
  case True
  with dp show ?thesis
    by (auto simp: doPlanning_def split: option.splits if_splits)
next
  case False
  from dp False obtain sfsvs rvs where l: "listBothVersions env fs = Inr (sfsvs, rvs)"
    by (cases "listBothVersions env fs") (auto simp: doPlanning_def)
  from dp False l have n: "\<not> length sfsvs < 1"
    by (auto simp: doPlanning_def split: if_splits)
  from dp False l n obtain tokopt raw where d: "decodeResumeToken env fs = Inr (tokopt, raw)"
    by (cases "decodeResumeToken env fs") (auto simp: doPlanning_def Let_def)
  let ?rfsvs = "if needReceiverVersions fs then rvs else []"
  let ?inner = "case tokopt of
      Some tok \<Rightarrow> Return (resumeSteps env fs oneStep tok raw sfsvs)
    | None \<Rightarrow> pathPlanning env fs oneStep ?rfsvs sfsvs"
  from dp False l n d have eq: "Return (Inr steps) =
      (case ?inner of
         Panic m \<Rightarrow> Panic m
       | Return (Inl err) \<Rightarrow> Return (Inl err)
       | Return (Inr pre) \<Rightarrow>
           if length pre = 0 then Return (Inr pre)
           else (case updateSizeEstimates env fs pre of
                   Panic m \<Rightarrow> Panic m
                 | Return (steps', err) \<Rightarrow> Return (Inr steps')))"
    by (simp add: doPlanning_def Let_def)
  then obtain pre where i: "?inner = Return (Inr pre)"
    by (cases ?inner) (auto split: sum.splits)
  show ?thesis
  proof (cases tokopt)
    case None
    with i have pp: "pathPlanning env fs oneStep ?rfsvs sfsvs = Return (Inr pre)" by simp
    then obtain path where "resolvedPath env fs ?rfsvs sfsvs = Return (path, None)"
      by (auto simp: pathPlanning_def split: go.splits prod.splits option.splits)
    with False l d None show ?thesis by blast
  next
    case (Some tok)
    with i have r: "resumeSteps env fs oneStep tok raw sfsvs = Inr pre" by simp
    let ?s = "SortVersionListByCreateTXGThenBookmarkLTSnapshot env sfsvs"
    obtain f t idx where sc: "resumeScan tok 0 ?s (None, None, 0) = (f, t, idx)"
      by (cases "resumeScan tok 0 ?s (None, None, 0)") auto
    from r sc obtain tv where t: "t = Some tv"
      by (cases t) (auto simp: resumeSteps_def)
    from n have "sfsvs \<noteq> []" by auto
    with False l d Some have "entered_with_token env fs tok raw sfsvs"
      by (auto simp: entered_with_token_def)
    with sc t show ?thesis by blast
  qed
qed


text \<open>
  C1, amended.  With one_step set and a path of \<open>IncrementalPath\<close> holding only
  snapshots after its first element, every plan has at most two steps, and a non-empty
  path gives a plan of one or two steps, but for the path of length one, on which
  planning panics.  Every plan is empty for a placeholder, or the plan of a path, or the
  plan of a resume token.  The plan of a path that starts with a snapshot is the one
  step from it to the last version; the plan of another path is the step from its first
  element, nil or a bookmark, to its second, followed, when the path has more than two
  elements, by one step from the second element to the last: it has two steps exactly
  when the path has more than two elements and does not start with a snapshot.  The
  plan of a resume token is the resume step with the raw token, followed, when more than
  one sender snapshot remains at or after the to-version, by one step from the
  to-version to the last remaining snapshot.
\<close>

theorem one_step_plan_length:
  assumes wf: "IncrementalPath_wellformed env"
  shows "(\<forall>steps. doPlanning env fs True = Return (Inr steps) \<longrightarrow>
            length steps \<le> 2
            \<and> (length steps = 2 \<longrightarrow>
                 (resumeToken (steps ! 0) \<noteq> '''' \<or> \<not> snapshot_elem (from_version (steps ! 0)))
                 \<and> resumeToken (steps ! 1) = ''''
                 \<and> from_version (steps ! 1) = to_version (steps ! 0)))
     \<and> (\<forall>rfsvs sfsvs path.
            resolvedPath env fs rfsvs sfsvs = Return (path, None) \<and> path \<noteq> [] \<longrightarrow>
              (length path = 1 \<and> (\<exists>m. pathPlanning env fs True rfsvs sfsvs = Panic m))
              \<or> (\<exists>steps. pathPlanning env fs True rfsvs sfsvs = Return (Inr steps)
                    \<and> (length steps = 1 \<or> length steps = 2)))
     \<and> (\<forall>steps sfsvs rvs raw path.
            doPlanning env fs True = Return (Inr steps)
            \<and> \<not> IsPlaceholder (senderFS fs)
            \<and> listBothVersions env fs = Inr (sfsvs, rvs)
            \<and> decodeResumeToken env fs = Inr (None, raw)
            \<and> resolvedPath env fs (if needReceiverVersions fs then rvs else []) sfsvs
                = Return (path, None) \<longrightarrow>
              map step_core steps = one_step_plan_of_path path
              \<and> (length steps = 2 \<longleftrightarrow> 2 < length path \<and> \<not> snapshot_elem (path ! 0)))
     \<and> (\<forall>steps tok raw sfsvs f tv idx.
            doPlanning env fs True = Return (Inr steps)
            \<and> entered_with_token env fs tok raw sfsvs
            \<and> resumeScan tok 0 (SortVersionListByCreateTXGThenBookmarkLTSnapshot env sfsvs)
                (None, None, 0) = (f, Some tv, idx) \<longrightarrow>
              raw \<noteq> ''''
              \<and> map step_core steps =
                  (f, Some tv, raw) #
                  (if 1 < length (filter is_snapshot
                          (drop idx (SortVersionListByCreateTXGThenBookmarkLTSnapshot env sfsvs)))
                   then [(Some tv, Some (last (filter is_snapshot
                          (drop idx (SortVersionListByCreateTXGThenBookmarkLTSnapshot env sfsvs)))),
                          '''')]
                   else []))
     \<and> (\<forall>steps. doPlanning env fs True = Return (Inr steps) \<longrightarrow>
            (IsPlaceholder (senderFS fs) \<and> steps = [])
            \<or> (\<not> IsPlaceholder (senderFS fs)
                \<and> (\<exists>sfsvs rvs raw path. listBothVersions env fs = Inr (sfsvs, rvs)
                      \<and> decodeResumeToken env fs = Inr (None, raw)
                      \<and> resolvedPath env fs (if needReceiverVersions fs then rvs else []) sfsvs
                          = Return (path, None)))
            \<or> (\<exists>tok raw sfsvs f tv idx. entered_with_token env fs tok raw sfsvs
                  \<and> resumeScan tok 0 (SortVersionListByCreateTXGThenBookmarkLTSnapshot env sfsvs)
                        (None, None, 0) = (f, Some tv, idx)))"
proof -
  have A: "length steps \<le> 2
      \<and> (length steps = 2 \<longrightarrow>
           (resumeToken (steps ! 0) \<noteq> '''' \<or> \<not> snapshot_elem (from_version (steps ! 0)))
           \<and> resumeToken (steps ! 1) = ''''
           \<and> from_version (steps ! 1) = to_version (steps ! 0))"
    if dp: "doPlanning env fs True = Return (Inr steps)" for steps
    using doPlanning_steps_cases [OF dp]
  proof (elim disjE exE conjE)
    assume "steps = []"
    then show ?thesis by simp
  next
    fix pre tok raw sfsvs
    assume core: "map step_core steps = map step_core pre" and raw: "raw \<noteq> ''''"
      and r: "resumeSteps env fs True tok raw sfsvs = Inr pre"
    from core have l: "length steps = length pre" by (rule map_eq_imp_length_eq)
    from resumeSteps_one_step [OF r] raw l step_core_nth [OF core]
    show ?thesis by auto
  next
    fix pre rfsvs sfsvs
    assume core: "map step_core steps = map step_core pre"
      and p: "pathPlanning env fs True rfsvs sfsvs = Return (Inr pre)"
    from core have l: "length steps = length pre" by (rule map_eq_imp_length_eq)
    from pathPlanning_one_step [OF p wf] have
      a: "length pre \<le> 2" and b: "\<forall>s\<in>set pre. resumeToken s = ''''"
      and c: "length pre = 2 \<longrightarrow> \<not> snapshot_elem (from_version (pre ! 0))
          \<and> from_version (pre ! 1) = to_version (pre ! 0)"
      by blast+
    from b have b1: "length pre = 2 \<longrightarrow> resumeToken (pre ! 1) = ''''" by simp
    from a b1 c l step_core_nth [OF core]
    show ?thesis by auto
  qed
  have B: "(length path = 1 \<and> (\<exists>m. pathPlanning env fs True rfsvs sfsvs = Panic m))
      \<or> (\<exists>steps. pathPlanning env fs True rfsvs sfsvs = Return (Inr steps)
            \<and> (length steps = 1 \<or> length steps = 2))"
    if rp: "resolvedPath env fs rfsvs sfsvs = Return (path, None)" and ne: "path \<noteq> []"
    for rfsvs sfsvs path
  proof (cases "length path = 1")
    case True
    with rp ne show ?thesis by (simp add: pathPlanning_def)
  next
    case False
    with ne have l2: "2 \<le> length path" by (cases path) (auto simp: Suc_le_eq)
    with rp False have pp: "pathPlanning env fs True rfsvs sfsvs = Return (Inr (pathLoop fs True path))"
      by (simp add: pathPlanning_def)
    from pathPlanning_one_step [OF pp wf] have "length (pathLoop fs True path) \<le> 2" by blast
    moreover from pathLoop_nonempty [OF l2, of fs True] have "length (pathLoop fs True path) \<noteq> 0"
      by simp
    ultimately have "length (pathLoop fs True path) = 1 \<or> length (pathLoop fs True path) = 2"
      by arith
    with pp show ?thesis by blast
  qed
  have C: "map step_core steps = one_step_plan_of_path path
      \<and> (length steps = 2 \<longleftrightarrow> 2 < length path \<and> \<not> snapshot_elem (path ! 0))"
    if "doPlanning env fs True = Return (Inr steps)" "\<not> IsPlaceholder (senderFS fs)"
      "listBothVersions env fs = Inr (sfsvs, rvs)" "decodeResumeToken env fs = Inr (None, raw)"
      "resolvedPath env fs (if needReceiverVersions fs then rvs else []) sfsvs
        = Return (path, None)"
    for steps sfsvs rvs raw path
  proof -
    from doPlanning_path_plan [OF that wf]
    have m: "map step_core steps = one_step_plan_of_path path" .
    then have "length steps = length (one_step_plan_of_path path)"
      by (metis length_map)
    with m show ?thesis by (simp only: one_step_plan_of_path_length)
  qed
  have D: "raw \<noteq> ''''
      \<and> map step_core steps =
          (f, Some tv, raw) #
          (if 1 < length (filter is_snapshot
                  (drop idx (SortVersionListByCreateTXGThenBookmarkLTSnapshot env sfsvs)))
           then [(Some tv, Some (last (filter is_snapshot
                  (drop idx (SortVersionListByCreateTXGThenBookmarkLTSnapshot env sfsvs)))),
                  '''')]
           else [])"
    if "doPlanning env fs True = Return (Inr steps)" "entered_with_token env fs tok raw sfsvs"
      "resumeScan tok 0 (SortVersionListByCreateTXGThenBookmarkLTSnapshot env sfsvs)
         (None, None, 0) = (f, Some tv, idx)"
    for steps tok raw sfsvs f tv idx
  proof -
    from that(2) have r: "raw \<noteq> ''''"
      unfolding entered_with_token_def by (auto dest: decodeResumeToken_raw)
    from r doPlanning_resume_plan [OF that] show ?thesis by (rule conjI)
  qed
  note E = doPlanning_plan_cases [of env fs True]
  from A have A': "\<forall>steps. doPlanning env fs True = Return (Inr steps) \<longrightarrow>
            length steps \<le> 2
            \<and> (length steps = 2 \<longrightarrow>
                 (resumeToken (steps ! 0) \<noteq> '''' \<or> \<not> snapshot_elem (from_version (steps ! 0)))
                 \<and> resumeToken (steps ! 1) = ''''
                 \<and> from_version (steps ! 1) = to_version (steps ! 0))"
    by blast
  from B have B': "\<forall>rfsvs sfsvs path.
            resolvedPath env fs rfsvs sfsvs = Return (path, None) \<and> path \<noteq> [] \<longrightarrow>
              (length path = 1 \<and> (\<exists>m. pathPlanning env fs True rfsvs sfsvs = Panic m))
              \<or> (\<exists>steps. pathPlanning env fs True rfsvs sfsvs = Return (Inr steps)
                    \<and> (length steps = 1 \<or> length steps = 2))"
    by blast
  from C have C': "\<forall>steps sfsvs rvs raw path.
            doPlanning env fs True = Return (Inr steps)
            \<and> \<not> IsPlaceholder (senderFS fs)
            \<and> listBothVersions env fs = Inr (sfsvs, rvs)
            \<and> decodeResumeToken env fs = Inr (None, raw)
            \<and> resolvedPath env fs (if needReceiverVersions fs then rvs else []) sfsvs
                = Return (path, None) \<longrightarrow>
              map step_core steps = one_step_plan_of_path path
              \<and> (length steps = 2 \<longleftrightarrow> 2 < length path \<and> \<not> snapshot_elem (path ! 0))"
    by blast
  from D have D': "\<forall>steps tok raw sfsvs f tv idx.
            doPlanning env fs True = Return (Inr steps)
            \<and> entered_with_token env fs tok raw sfsvs
            \<and> resumeScan tok 0 (SortVersionListByCreateTXGThenBookmarkLTSnapshot env sfsvs)
                (None, None, 0) = (f, Some tv, idx) \<longrightarrow>
              raw \<noteq> ''''
              \<and> map step_core steps =
                  (f, Some tv, raw) #
                  (if 1 < length (filter is_snapshot
                          (drop idx (SortVersionListByCreateTXGThenBookmarkLTSnapshot env sfsvs)))
                   then [(Some tv, Some (last (filter is_snapshot
                          (drop idx (SortVersionListByCreateTXGThenBookmarkLTSnapshot env sfsvs)))),
                          '''')]
                   else [])"
    by blast
  from E have E': "\<forall>steps. doPlanning env fs True = Return (Inr steps) \<longrightarrow>
            (IsPlaceholder (senderFS fs) \<and> steps = [])
            \<or> (\<not> IsPlaceholder (senderFS fs)
                \<and> (\<exists>sfsvs rvs raw path. listBothVersions env fs = Inr (sfsvs, rvs)
                      \<and> decodeResumeToken env fs = Inr (None, raw)
                      \<and> resolvedPath env fs (if needReceiverVersions fs then rvs else []) sfsvs
                          = Return (path, None)))
            \<or> (\<exists>tok raw sfsvs f tv idx. entered_with_token env fs tok raw sfsvs
                  \<and> resumeScan tok 0 (SortVersionListByCreateTXGThenBookmarkLTSnapshot env sfsvs)
                        (None, None, 0) = (f, Some tv, idx))"
    by blast
  from A' B' C' D' E' show ?thesis by (intro conjI)
qed

theorem one_step_plan_length_witness:
  "IncrementalPath_wellformed (env_scenarios [book_b, snap_c, snap_d] [snap_b] token_a_b)
   \<and> \<not> IsPlaceholder (senderFS (with_receiver fs_data ''''))
   \<and> listBothVersions (env_scenarios [book_b, snap_c, snap_d] [snap_b] token_a_b)
        (with_receiver fs_data '''') = Inr ([book_b, snap_c, snap_d], [snap_b])
   \<and> decodeResumeToken (env_scenarios [book_b, snap_c, snap_d] [snap_b] token_a_b)
        (with_receiver fs_data '''') = Inr (None, '''')
   \<and> resolvedPath (env_scenarios [book_b, snap_c, snap_d] [snap_b] token_a_b)
        (with_receiver fs_data '''')
        (if needReceiverVersions (with_receiver fs_data '''') then [snap_b] else [])
        [book_b, snap_c, snap_d]
      = Return ([Some book_b, Some snap_c, Some snap_d], None)
   \<and> doPlanning (env_scenarios [book_b, snap_c, snap_d] [snap_b] token_a_b)
        (with_receiver fs_data '''') True
      = Return (Inr
          [(mkStep (with_receiver fs_data '''') (Some book_b) (Some snap_c) '''')
             \<lparr>expectedSize := 4096\<rparr>,
           (mkStep (with_receiver fs_data '''') (Some snap_c) (Some snap_d) '''')
             \<lparr>expectedSize := 4096\<rparr>])
   \<and> map step_core
        [(mkStep (with_receiver fs_data '''') (Some book_b) (Some snap_c) '''')
           \<lparr>expectedSize := 4096\<rparr>,
         (mkStep (with_receiver fs_data '''') (Some snap_c) (Some snap_d) '''')
           \<lparr>expectedSize := 4096\<rparr>]
      = one_step_plan_of_path [Some book_b, Some snap_c, Some snap_d]
   \<and> one_step_plan_of_path [Some book_b, Some snap_c, Some snap_d]
      = [(Some book_b, Some snap_c, ''''), (Some snap_c, Some snap_d, '''')]"
proof -
  let ?svs = "[book_b, snap_c, snap_d]"
  let ?env = "env_scenarios ?svs [snap_b] token_a_b"
  let ?fs = "with_receiver fs_data ''''"
  let ?path = "[Some book_b, Some snap_c, Some snap_d]"
  let ?pre = "[mkStep ?fs (Some book_b) (Some snap_c) '''', mkStep ?fs (Some snap_c) (Some snap_d) '''']"
  let ?steps = "[(mkStep ?fs (Some book_b) (Some snap_c) '''')\<lparr>expectedSize := 4096\<rparr>,
                 (mkStep ?fs (Some snap_c) (Some snap_d) '''')\<lparr>expectedSize := 4096\<rparr>]"
  have wf: "IncrementalPath_wellformed ?env" by (rule IncrementalPath_wellformed_scenarios)
  have p: "\<not> IsPlaceholder (senderFS ?fs)" by (simp add: fs_data_def with_receiver_def)
  have nr: "needReceiverVersions ?fs" by (simp add: needReceiverVersions_def with_receiver_def)
  then have l: "listBothVersions ?env ?fs = Inr (?svs, [snap_b])"
    by (simp add: listBothVersions_def env_scenarios_def)
  have d: "decodeResumeToken ?env ?fs = Inr (None, '''')"
    by (simp add: decodeResumeToken_def with_receiver_def)
  have s: "sort_versions ?svs = ?svs" "sort_versions [snap_b] = [snap_b]"
    by (simp_all add: sort_versions_def version_defs word_cmp)
  have on: "on_receiver [snap_b] book_b" "\<not> on_receiver [snap_b] snap_c"
    "\<not> on_receiver [snap_b] snap_d"
    by (simp_all add: on_receiver_def version_defs)
  have sn: "is_snapshot snap_c" "is_snapshot snap_d" by (simp_all add: is_snapshot_def version_defs)
  have ip: "IncrementalPath ?env [snap_b] ?svs = (?path, None)"
    unfolding env_scenarios_def IncrementalPath_scenarios_def Let_def
    by (simp add: s on sn)
  have rp0: "resolvedPath ?env ?fs [snap_b] ?svs = Return (?path, None)"
    unfolding resolvedPath_def ip by simp
  with nr have rp: "resolvedPath ?env ?fs (if needReceiverVersions ?fs then [snap_b] else []) ?svs
      = Return (?path, None)"
    by simp
  have tb: "Type (snd book_b) = Bookmark" "Type (snd snap_c) = Snapshot"
    by (simp_all add: version_defs)
  have pl: "pathLoop ?fs True ?path = ?pre"
    by (simp add: tb)
  have pp: "pathPlanning ?env ?fs True (if needReceiverVersions ?fs then [snap_b] else []) ?svs
      = Return (Inr ?pre)"
    unfolding pathPlanning_def rp using pl by simp
  have u: "updateSizeEstimates ?env ?fs ?pre = Return (?steps, None)"
    by (simp add: updateSizeEstimates_def env_scenarios_def)
  have ne: "?pre \<noteq> []" by simp
  have ss: "?svs \<noteq> []" by simp
  from doPlanning_path [OF p l ss d pp ne u]
  have dp: "doPlanning ?env ?fs True = Return (Inr ?steps)" .
  from one_step_plan_length [OF wf, of ?fs]
  have "\<forall>steps sfsvs rvs raw path.
            doPlanning ?env ?fs True = Return (Inr steps)
            \<and> \<not> IsPlaceholder (senderFS ?fs)
            \<and> listBothVersions ?env ?fs = Inr (sfsvs, rvs)
            \<and> decodeResumeToken ?env ?fs = Inr (None, raw)
            \<and> resolvedPath ?env ?fs (if needReceiverVersions ?fs then rvs else []) sfsvs
                = Return (path, None) \<longrightarrow>
              map step_core steps = one_step_plan_of_path path
              \<and> (length steps = 2 \<longleftrightarrow> 2 < length path \<and> \<not> snapshot_elem (path ! 0))"
    by (elim conjE)
  then have "doPlanning ?env ?fs True = Return (Inr ?steps)
            \<and> \<not> IsPlaceholder (senderFS ?fs)
            \<and> listBothVersions ?env ?fs = Inr (?svs, [snap_b])
            \<and> decodeResumeToken ?env ?fs = Inr (None, '''')
            \<and> resolvedPath ?env ?fs (if needReceiverVersions ?fs then [snap_b] else []) ?svs
                = Return (?path, None) \<longrightarrow>
              map step_core ?steps = one_step_plan_of_path ?path
              \<and> (length ?steps = 2 \<longleftrightarrow> 2 < length ?path \<and> \<not> snapshot_elem (?path ! 0))"
    by (elim allE)
  moreover from dp p l d rp have "doPlanning ?env ?fs True = Return (Inr ?steps)
            \<and> \<not> IsPlaceholder (senderFS ?fs)
            \<and> listBothVersions ?env ?fs = Inr (?svs, [snap_b])
            \<and> decodeResumeToken ?env ?fs = Inr (None, '''')
            \<and> resolvedPath ?env ?fs (if needReceiverVersions ?fs then [snap_b] else []) ?svs
                = Return (?path, None)"
    by (intro conjI)
  ultimately have "map step_core ?steps = one_step_plan_of_path ?path
              \<and> (length ?steps = 2 \<longleftrightarrow> 2 < length ?path \<and> \<not> snapshot_elem (?path ! 0))"
    by (rule mp)
  then have m: "map step_core ?steps = one_step_plan_of_path ?path" by (rule conjunct1)
  have nb: "\<not> snapshot_elem (Some book_b)"
    by (simp add: snapshot_elem_def is_snapshot_def version_defs)
  have o: "one_step_plan_of_path ?path
      = [(Some book_b, Some snap_c, ''''), (Some snap_c, Some snap_d, '''')]"
    by (simp add: one_step_plan_of_path_def nb)
  from wf p l d rp dp m o show ?thesis by (intro conjI)
qed

section \<open>Properties of the batched destruction\<close>

lemma touches_only_refl: "touches_only B st st"
  by (simp add: touches_only_def)

lemma touches_only_trans:
  "touches_only B st st1 \<Longrightarrow> touches_only B st1 st2 \<Longrightarrow> touches_only B st st2"
  unfolding touches_only_def by (elim conjE exE) (rule conjI, simp, rule_tac x = "new @ newa" in exI, auto)

lemma from_batch_mono: "B \<subseteq> B' \<Longrightarrow> from_batch B args \<Longrightarrow> from_batch B' args"
  unfolding from_batch_def by blast

lemma touches_only_mono: "B \<subseteq> B' \<Longrightarrow> touches_only B st st' \<Longrightarrow> touches_only B' st st'"
  unfolding touches_only_def using from_batch_mono by blast

lemma uniform_subset: "uniform b \<Longrightarrow> set c \<subseteq> set b \<Longrightarrow> uniform c"
  unfolding uniform_def by blast

lemma uniform_single: "uniform [r]"
  by (simp add: uniform_def)

lemma touches_only_setErrOut: "r \<in> B \<Longrightarrow> touches_only B st (setErrOut r e st)"
  by (auto simp: touches_only_def setErrOut_def)

lemma touches_only_Destroy:
  "from_batch B args \<Longrightarrow> touches_only B st (snd (Destroy d args st))"
  by (simp add: touches_only_def Destroy_def)

lemma touches_only_setDestroySnapOpErr:
  "set b \<subseteq> B \<Longrightarrow> touches_only B st (setDestroySnapOpErr b e st)"
proof (induction b arbitrary: st)
  case Nil
  show ?case by (simp add: touches_only_refl)
next
  case (Cons r b)
  then have "touches_only B st (setErrOut r e st)" by (simp add: touches_only_setErrOut)
  moreover from Cons have "touches_only B (setErrOut r e st) (setDestroySnapOpErr b e (setErrOut r e st))"
    by simp
  ultimately show ?case by (simp add: touches_only_trans)
qed

lemma batchArg_single: "batchArg [r] = op_Filesystem r @ ''@'' @ op_Name r"
  by (simp add: batchArg_def)

lemma touches_only_doDestroySeq:
  "set b \<subseteq> B \<Longrightarrow> touches_only B st (doDestroySeq d b st)"
proof (induction b arbitrary: st)
  case Nil
  show ?case by (simp add: touches_only_refl)
next
  case (Cons r b)
  let ?args = "[op_Filesystem r @ ''@'' @ op_Name r]"
  obtain err st1 where D: "Destroy d ?args st = (err, st1)" by (cases "Destroy d ?args st") auto
  from Cons.prems have "from_batch B ?args"
    unfolding from_batch_def
    by (intro exI [of _ "[r]"]) (simp add: uniform_single batchArg_single)
  from touches_only_Destroy [OF this, of st d] D have t1: "touches_only B st st1" by simp
  from Cons.prems have t2: "touches_only B st1 (setErrOut r err st1)"
    by (simp add: touches_only_setErrOut)
  from Cons have t3: "touches_only B (setErrOut r err st1) (doDestroySeq d b (setErrOut r err st1))"
    by simp
  from t1 t2 t3 have "touches_only B st (doDestroySeq d b (setErrOut r err st1))"
    by (blast intro: touches_only_trans)
  with D show ?case by simp
qed

lemma tryBatch_uniform:
  assumes "uniform b" and "set b \<subseteq> B"
  shows "\<exists>err st1. tryBatch d b st = Return (err, st1) \<and> touches_only B st st1"
proof (cases "b = []")
  case True
  then show ?thesis by (simp add: tryBatch_def touches_only_refl)
next
  case False
  then have "b ! 0 \<in> set b" by (cases b) auto
  with assms(1) have nx: "\<not> list_ex (\<lambda>x. op_Filesystem (b ! 0) \<noteq> op_Filesystem x) b"
    unfolding uniform_def list_ex_iff by blast
  from False assms have "from_batch B [batchArg b]" unfolding from_batch_def by blast
  from touches_only_Destroy [OF this, of st d] False nx show ?thesis
    by (cases "Destroy d [batchArg b] st") (auto simp: tryBatch_def)
qed

lemma doDestroyBatchedRec_uniform:
  "uniform fsbatch \<Longrightarrow> set fsbatch \<subseteq> B \<Longrightarrow>
    \<exists>st'. doDestroyBatchedRec d fsbatch st = Return st' \<and> touches_only B st st'"
proof (induction d fsbatch st rule: doDestroyBatchedRec.induct)
  case (1 d fsbatch st)
  note u = "1.prems"(1) and sub = "1.prems"(2)
  show ?case
  proof (cases "length fsbatch \<le> 1")
    case True
    with touches_only_doDestroySeq [OF sub, of st d] show ?thesis
      by (subst doDestroyBatchedRec.simps) simp
  next
    case long: False
    from tryBatch_uniform [OF u sub, of d st] obtain err st1 where
      tb: "tryBatch d fsbatch st = Return (err, st1)" and t1: "touches_only B st st1" by blast
    show ?thesis
    proof (cases err)
      case None
      from touches_only_setDestroySnapOpErr [OF sub, of st1 None] t1
      have "touches_only B st (setDestroySnapOpErr fsbatch None st1)"
        by (blast intro: touches_only_trans)
      with long tb None show ?thesis
        by (subst doDestroyBatchedRec.simps) simp
    next
      case (Some e)
      show ?thesis
      proof (cases "isE2BIGPathError e")
        case True
        let ?h1 = "take (length fsbatch div 2) fsbatch"
        let ?h2 = "drop (length fsbatch div 2) fsbatch"
        have s1: "set ?h1 \<subseteq> set fsbatch" by (rule set_take_subset)
        have s2: "set ?h2 \<subseteq> set fsbatch" by (rule set_drop_subset)
        from "1.IH"(1) [OF long tb refl Some True uniform_subset [OF u s1]] s1 sub
        obtain st2 where r1: "doDestroyBatchedRec d ?h1 st1 = Return st2"
          and t2: "touches_only B st1 st2" by blast
        from "1.IH"(2) [OF long tb refl Some True r1 uniform_subset [OF u s2]] s2 sub
        obtain st3 where r2: "doDestroyBatchedRec d ?h2 st2 = Return st3"
          and t3: "touches_only B st2 st3" by blast
        from t1 t2 t3 have "touches_only B st st3" by (blast intro: touches_only_trans)
        with long tb Some True r1 r2 show ?thesis
          by (subst doDestroyBatchedRec.simps) simp
      next
        case notbig: False
        show ?thesis
        proof (cases "As_DestroySnapshotsError e")
          case (Some und)
          note e = this
          let ?stripped = "filter (\<lambda>b. op_Name b \<notin> set und) fsbatch"
          let ?remaining = "filter (\<lambda>b. op_Name b \<in> set und) fsbatch"
          have ss: "set ?stripped \<subseteq> set fsbatch" "set ?remaining \<subseteq> set fsbatch" by auto
          from tryBatch_uniform [OF uniform_subset [OF u ss(1)], of B d st1] ss(1) sub
          obtain err2 st2 where tb2: "tryBatch d ?stripped st1 = Return (err2, st2)"
            and t2: "touches_only B st1 st2" by blast
          have "\<exists>st'. (case err2 of
                Some e \<Rightarrow> Return (doDestroySeq d fsbatch st2)
              | None \<Rightarrow> Return (doDestroySeq d ?remaining
                   (setDestroySnapOpErr ?stripped None st2))) = Return st'
              \<and> touches_only B st2 st'"
          proof (cases err2)
            case None
            from ss sub have "touches_only B st2 (setDestroySnapOpErr ?stripped None st2)"
              by (intro touches_only_setDestroySnapOpErr) blast
            moreover from ss sub have "touches_only B (setDestroySnapOpErr ?stripped None st2)
                (doDestroySeq d ?remaining (setDestroySnapOpErr ?stripped None st2))"
              by (intro touches_only_doDestroySeq) blast
            ultimately show ?thesis using None by (auto intro: touches_only_trans)
          next
            case (Some e2)
            with touches_only_doDestroySeq [OF sub, of st2 d] show ?thesis by simp
          qed
          then obtain st' where
            fin: "(case err2 of
                Some e \<Rightarrow> Return (doDestroySeq d fsbatch st2)
              | None \<Rightarrow> Return (doDestroySeq d ?remaining
                   (setDestroySnapOpErr ?stripped None st2))) = Return st'"
            and t3: "touches_only B st2 st'" by blast
          from t1 t2 t3 have "touches_only B st st'" by (blast intro: touches_only_trans)
          with long tb \<open>err = Some e\<close> notbig e tb2 fin show ?thesis
            by (subst doDestroyBatchedRec.simps) (simp add: Let_def)
        next
          case None
          from touches_only_doDestroySeq [OF sub, of st1 d] t1
          have "touches_only B st (doDestroySeq d fsbatch st1)"
            by (blast intro: touches_only_trans)
          with long tb \<open>err = Some e\<close> notbig None show ?thesis
            by (subst doDestroyBatchedRec.simps) simp
        qed
      qed
    qed
  qed
qed

lemma scanBatch_ge: "b \<le> scanBatch m s c b"
  by (induction m s c b rule: scanBatch.induct)
     (subst scanBatch.simps, auto simp del: scanBatch.simps)

lemma scanBatch_le: "b \<le> length s \<Longrightarrow> scanBatch m s c b \<le> length s"
  by (induction m s c b rule: scanBatch.induct)
     (subst scanBatch.simps, auto simp del: scanBatch.simps)

lemma scanBatch_progress: "c < length s \<Longrightarrow> c < scanBatch m s c c"
proof -
  assume c: "c < length s"
  then have "scanBatch m s c c = scanBatch m s c (c + 1)"
    by (subst scanBatch.simps) auto
  with scanBatch_ge [of "c + 1" m s c] show ?thesis by simp
qed

lemma scanBatch_step:
  assumes "b < length s \<and> (m < 1 \<or> int b - int c < m)
      \<and> op_Filesystem (s ! b) = op_Filesystem (s ! c)"
  shows "scanBatch m s c b = scanBatch m s c (b + 1)"
proof -
  have "scanBatch m s c b =
      (if b < length s \<and> (m < 1 \<or> int b - int c < m)
          \<and> op_Filesystem (s ! b) = op_Filesystem (s ! c)
       then scanBatch m s c (b + 1) else b)"
    by (rule scanBatch.simps)
  also from assms have "\<dots> = scanBatch m s c (b + 1)" by (rule if_P)
  finally show ?thesis .
qed

lemma scanBatch_stop:
  assumes "\<not> (b < length s \<and> (m < 1 \<or> int b - int c < m)
      \<and> op_Filesystem (s ! b) = op_Filesystem (s ! c))"
  shows "scanBatch m s c b = b"
proof -
  have "scanBatch m s c b =
      (if b < length s \<and> (m < 1 \<or> int b - int c < m)
          \<and> op_Filesystem (s ! b) = op_Filesystem (s ! c)
       then scanBatch m s c (b + 1) else b)"
    by (rule scanBatch.simps)
  also from assms have "\<dots> = b" by (rule if_not_P)
  finally show ?thesis .
qed

lemma scanBatch_same:
  "\<forall>j. c \<le> j \<and> j < b \<longrightarrow> op_Filesystem (s ! j) = op_Filesystem (s ! c) \<Longrightarrow>
    \<forall>j. c \<le> j \<and> j < scanBatch m s c b \<longrightarrow> op_Filesystem (s ! j) = op_Filesystem (s ! c)"
proof (induction m s c b rule: scanBatch.induct)
  case (1 m s c b)
  show ?case
  proof (cases "b < length s
        \<and> (m < 1 \<or> int b - int c < m)
        \<and> op_Filesystem (s ! b) = op_Filesystem (s ! c)")
    case True
    have "\<forall>j. c \<le> j \<and> j < b + 1 \<longrightarrow> op_Filesystem (s ! j) = op_Filesystem (s ! c)"
    proof (intro allI impI)
      fix j assume j: "c \<le> j \<and> j < b + 1"
      show "op_Filesystem (s ! j) = op_Filesystem (s ! c)"
      proof (cases "j = b")
        case True
        with \<open>b < length s
        \<and> (m < 1 \<or> int b - int c < m)
        \<and> op_Filesystem (s ! b) = op_Filesystem (s ! c)\<close> show ?thesis by (simp del: scanBatch.simps)
      next
        case False
        with j have "c \<le> j \<and> j < b" by arith
        with "1.prems" show ?thesis by blast
      qed
    qed
    from "1.IH" [OF True this] show ?thesis
      by (simp only: scanBatch_step [OF True])
  next
    case False
    from "1.prems" show ?thesis
      by (simp only: scanBatch_stop [OF False])
  qed
qed

lemma slice_uniform:
  assumes "c < x" and "x \<le> length s"
    and "\<forall>j. c \<le> j \<and> j < x \<longrightarrow> op_Filesystem (s ! j) = op_Filesystem (s ! c)"
  shows "take (x - c) (drop c s) \<noteq> [] \<and> uniform (take (x - c) (drop c s))"
proof -
  let ?b = "take (x - c) (drop c s)"
  from assms(1,2) have len: "length ?b = x - c" by simp
  with assms(1) have ne: "?b \<noteq> []" by (cases ?b) simp_all
  have fs: "op_Filesystem y = op_Filesystem (s ! c)" if "y \<in> set ?b" for y
  proof -
    from that obtain i where i: "i < length ?b" "?b ! i = y"
      unfolding in_set_conv_nth by blast
    from i(1) len have ix: "i < x - c" by simp
    from ix assms(2) have "c + i < length s" by arith
    with ix have "?b ! i = s ! (c + i)" by simp
    with i(2) have y: "y = s ! (c + i)" by simp
    from ix have "c \<le> c + i \<and> c + i < x" by arith
    with assms(3) y show ?thesis by blast
  qed
  have "uniform ?b" unfolding uniform_def
  proof (intro ballI)
    fix y z assume "y \<in> set ?b" "z \<in> set ?b"
    then show "op_Filesystem y = op_Filesystem z" by (simp only: fs)
  qed
  with ne show ?thesis by (rule conjI)
qed

lemma groupLoop_batches:
  "c \<le> length s \<Longrightarrow>
    concat (groupLoop m s c perFS) = concat perFS @ drop c s
    \<and> (\<forall>b\<in>set (groupLoop m s c perFS). b \<in> set perFS \<or> (b \<noteq> [] \<and> uniform b))"
proof (induction m s c perFS rule: groupLoop.induct)
  case (1 m s c perFS)
  show ?case
  proof (cases "c < length s")
    case False
    then have "groupLoop m s c perFS = perFS" by (subst groupLoop.simps) simp
    with "1.prems" False show ?thesis by simp
  next
    case True
    let ?x = "scanBatch m s c c"
    let ?b = "take (?x - c) (drop c s)"
    from scanBatch_progress [OF True] have cx: "c < ?x" .
    from scanBatch_le [of c s m c] True have xl: "?x \<le> length s" by simp
    have "\<forall>j. c \<le> j \<and> j < c \<longrightarrow> op_Filesystem (s ! j) = op_Filesystem (s ! c)" by auto
    from scanBatch_same [OF this] have same: "\<forall>j. c \<le> j \<and> j < ?x \<longrightarrow>
        op_Filesystem (s ! j) = op_Filesystem (s ! c)" .
    from slice_uniform [OF cx xl same] have b: "?b \<noteq> []" "uniform ?b" by simp_all
    from "1.IH" [OF True refl xl]
    have ih: "concat (groupLoop m s ?x (perFS @ [?b])) = concat (perFS @ [?b]) @ drop ?x s"
      "\<forall>b\<in>set (groupLoop m s ?x (perFS @ [?b])).
          b \<in> set (perFS @ [?b]) \<or> (b \<noteq> [] \<and> uniform b)"
      by simp_all
    have g: "groupLoop m s c perFS = groupLoop m s ?x (perFS @ [?b])"
      using True by (subst groupLoop.simps) (simp add: Let_def)
    from cx have "drop ?x s = drop (?x - c) (drop c s)" by simp
    then have "?b @ drop ?x s = drop c s" by (simp only: append_take_drop_id)
    with ih(1) have c1: "concat (groupLoop m s c perFS) = concat perFS @ drop c s"
      by (simp add: g)
    from ih(2) b have c2: "\<forall>b\<in>set (groupLoop m s c perFS). b \<in> set perFS \<or> (b \<noteq> [] \<and> uniform b)"
      by (auto simp: g)
    from c1 c2 show ?thesis by simp
  qed
qed

lemma buildBatches_batches:
  "concat (buildBatches m reqs) = sort_key (\<lambda>r. (op_Filesystem r, op_Name r)) reqs
   \<and> (\<forall>b\<in>set (buildBatches m reqs). b \<noteq> [] \<and> uniform b)"
proof (cases "reqs = []")
  case True
  then show ?thesis by (simp add: buildBatches_def)
next
  case False
  let ?s = "sort_key (\<lambda>r. (op_Filesystem r, op_Name r)) reqs"
  from groupLoop_batches [of 0 ?s m "[]"] False show ?thesis
    by (simp add: buildBatches_def)
qed

lemma destroyBatches_uniform:
  "\<forall>b\<in>set perFS. uniform b \<and> set b \<subseteq> B \<Longrightarrow>
    \<exists>st'. destroyBatches d perFS st = Return st' \<and> touches_only B st st'"
proof (induction perFS arbitrary: st)
  case Nil
  show ?case by (simp add: touches_only_refl)
next
  case (Cons b perFS)
  then have "uniform b" "set b \<subseteq> B" by simp_all
  from doDestroyBatchedRec_uniform [OF this, of d st] obtain st1 where
    r: "doDestroyBatchedRec d b st = Return st1" and t1: "touches_only B st st1" by blast
  from Cons have "\<forall>b\<in>set perFS. uniform b \<and> set b \<subseteq> B" by simp
  from Cons.IH [OF this, of st1] obtain st2 where
    r2: "destroyBatches d perFS st1 = Return st2" and t2: "touches_only B st1 st2" by blast
  from t1 t2 have "touches_only B st st2" by (rule touches_only_trans)
  with r r2 show ?case by simp
qed

lemma validateLoop_result:
  "fst (validateLoop reqs (validated, st)) = validated @ filter valid_op reqs
   \<and> calls (snd (validateLoop reqs (validated, st))) = calls st"
  by (induction reqs arbitrary: validated st) (auto simp: valid_op_def setErrOut_def)

lemma validateLoop_errs:
  "validation_error (errs st a) \<or> (\<exists>r\<in>set reqs. \<not> valid_op r \<and> ErrOut r = a) \<Longrightarrow>
    validation_error (errs (snd (validateLoop reqs (validated, st))) a)"
proof (induction reqs arbitrary: validated st)
  case Nil
  then show ?case by simp
next
  case (Cons r reqs)
  let ?acc = "if op_Filesystem r = '''' then
         (validated, setErrOut r (Some (Error ''Filesystem must not be an empty string'')) st)
       else if op_Name r = '''' then
         (validated, setErrOut r (Some (Error ''Name must not be an empty string'')) st)
       else (validated @ [r], st)"
  have step: "validateLoop (r # reqs) (validated, st) = validateLoop reqs (fst ?acc, snd ?acc)"
    by simp
  from Cons.prems
  have "validation_error (errs (snd ?acc) a) \<or> (\<exists>r\<in>set reqs. \<not> valid_op r \<and> ErrOut r = a)"
    by (auto simp: valid_op_def setErrOut_def validation_error_def)
  from Cons.IH [OF this] show ?case by (simp only: step)
qed

text \<open>
  C10.  \<open>doDestroy\<close> never panics, whatever the requests, the destroyer and the batch
  size limit.  A request with an empty Filesystem or an empty Name has one of the two
  validation errors in its error variable after the validation loop, and still at the
  end when no valid request shares that variable; every \<open>Destroy\<close> call is made from
  valid requests only.
  The batches that \<open>buildBatches\<close> makes of the valid requests are non-empty, each on
  one filesystem, and together a permutation of the valid requests.
\<close>

theorem doDestroy_batches:
  "\<exists>st'. doDestroy d maxBatchSize reqs st = Return st'
     \<and> (\<forall>r\<in>set reqs. \<not> valid_op r \<longrightarrow>
           validation_error (errs (snd (validateLoop reqs ([], st))) (ErrOut r)))
     \<and> (\<forall>r\<in>set reqs. \<not> valid_op r \<and> ErrOut r \<notin> ErrOut ` set (filter valid_op reqs) \<longrightarrow>
           validation_error (errs st' (ErrOut r)) \<and> errs st' (ErrOut r) \<noteq> None)
     \<and> (\<exists>new. calls st' = calls st @ new
           \<and> (\<forall>args\<in>set new. from_batch (set (filter valid_op reqs)) args))
     \<and> (\<forall>b\<in>set (buildBatches maxBatchSize (filter valid_op reqs)). b \<noteq> [] \<and> uniform b)
     \<and> mset (concat (buildBatches maxBatchSize (filter valid_op reqs)))
          = mset (filter valid_op reqs)"
proof -
  let ?V = "filter valid_op reqs"
  let ?B = "set (filter valid_op reqs)"
  let ?bs = "buildBatches maxBatchSize ?V"
  obtain validated st1 where vl: "validateLoop reqs ([], st) = (validated, st1)"
    by (cases "validateLoop reqs ([], st)") auto
  from validateLoop_result [of reqs "[]" st] vl
  have v: "validated = ?V" and c1: "calls st1 = calls st" by simp_all
  from buildBatches_batches [of maxBatchSize ?V]
  have cc: "concat ?bs = sort_key (\<lambda>r. (op_Filesystem r, op_Name r)) ?V"
    and un: "\<forall>b\<in>set ?bs. b \<noteq> [] \<and> uniform b" by simp_all
  from cc have ms: "mset (concat ?bs) = mset ?V" by simp
  from cc have "set (concat ?bs) = set ?V" by simp
  then have sub: "\<forall>b\<in>set ?bs. set b \<subseteq> ?B" by (simp only: set_concat) blast
  with un have "\<forall>b\<in>set ?bs. uniform b \<and> set b \<subseteq> ?B" by blast
  from destroyBatches_uniform [OF this, of d st1] obtain st' where
    r: "destroyBatches d ?bs st1 = Return st'" and t: "touches_only ?B st1 st'" by blast
  from vl v r have dd: "doDestroy d maxBatchSize reqs st = Return st'"
    by (simp add: doDestroy_def doDestroyBatched_def)
  from t c1 have cl: "\<exists>new. calls st' = calls st @ new \<and> (\<forall>args\<in>set new. from_batch ?B args)"
    by (simp add: touches_only_def)
  have er: "validation_error (errs st' (ErrOut r)) \<and> errs st' (ErrOut r) \<noteq> None"
    if "r \<in> set reqs" "\<not> valid_op r" "ErrOut r \<notin> ErrOut ` ?B" for r
  proof -
    from that(1,2) have "validation_error (errs st (ErrOut r))
        \<or> (\<exists>q\<in>set reqs. \<not> valid_op q \<and> ErrOut q = ErrOut r)" by blast
    from validateLoop_errs [OF this, of "[]"] vl
    have "validation_error (errs st1 (ErrOut r))" by simp
    moreover from t that(3) have "errs st' (ErrOut r) = errs st1 (ErrOut r)"
      by (simp add: touches_only_def)
    ultimately show ?thesis by (auto simp: validation_error_def)
  qed
  have er0: "validation_error (errs (snd (validateLoop reqs ([], st))) (ErrOut r))"
    if "r \<in> set reqs" "\<not> valid_op r" for r
  proof -
    from that have "validation_error (errs st (ErrOut r))
        \<or> (\<exists>q\<in>set reqs. \<not> valid_op q \<and> ErrOut q = ErrOut r)" by blast
    then show ?thesis by (rule validateLoop_errs)
  qed
  from dd er0 er cl un ms show ?thesis by blast
qed

lemma reqs_example_calls:
  "(case doDestroy destroyer_ok 0 reqs_example state_empty of
      Return st \<Rightarrow> calls st | Panic m \<Rightarrow> [])
    = [[''pool/a@s1,s2''], [''pool/b@s1'']]"
  by code_simp

theorem doDestroy_batches_witness:
  "mk_op '''' ''s2'' 1 \<in> set reqs_example
   \<and> \<not> valid_op (mk_op '''' ''s2'' 1)
   \<and> ErrOut (mk_op '''' ''s2'' 1) \<notin> ErrOut ` set (filter valid_op reqs_example)
   \<and> (\<exists>st'. doDestroy destroyer_ok 0 reqs_example state_empty = Return st'
         \<and> validation_error (errs st' 1)
         \<and> calls st' = [[''pool/a@s1,s2''], [''pool/b@s1'']])"
proof -
  let ?r = "mk_op '''' ''s2'' 1"
  have m: "?r \<in> set reqs_example" by (simp add: reqs_example_def)
  have nv: "\<not> valid_op ?r" by (simp add: valid_op_def mk_op_def)
  have f: "filter valid_op reqs_example
      = [mk_op ''pool/b'' ''s1'' 0, mk_op ''pool/a'' ''s2'' 2, mk_op ''pool/a'' ''s1'' 4]"
    by (simp add: reqs_example_def valid_op_def mk_op_def)
  have na: "ErrOut ?r \<notin> ErrOut ` set (filter valid_op reqs_example)"
    unfolding f by (simp add: mk_op_def)
  from doDestroy_batches [of destroyer_ok 0 reqs_example state_empty] obtain st' where
    dd: "doDestroy destroyer_ok 0 reqs_example state_empty = Return st'"
    and all: "\<forall>r\<in>set reqs_example.
        \<not> valid_op r \<and> ErrOut r \<notin> ErrOut ` set (filter valid_op reqs_example) \<longrightarrow>
        validation_error (errs st' (ErrOut r)) \<and> errs st' (ErrOut r) \<noteq> None"
    by (elim exE conjE) (rule that, assumption+)
  from all m nv na have "validation_error (errs st' (ErrOut ?r))" by blast
  then have ve: "validation_error (errs st' 1)" by (simp add: mk_op_def)
  from reqs_example_calls dd have cs: "calls st' = [[''pool/a@s1,s2''], [''pool/b@s1'']]"
    by simp
  from dd ve cs have "\<exists>st'. doDestroy destroyer_ok 0 reqs_example state_empty = Return st'
         \<and> validation_error (errs st' 1)
         \<and> calls st' = [[''pool/a@s1,s2''], [''pool/b@s1'']]"
    by (intro exI [of _ st'] conjI)
  with m nv na show ?thesis by (intro conjI)
qed

end
